theory Spec2Isabelle
  imports Main "HOL-Library.AList"
begin

section \<open>JavaScript numbers that reach the engine's arithmetic\<close>

text \<open>
  The engine stores ranks, costs and the point total as integers, and a JavaScript number is
  a double: an integer is a number when it has at most 53 significant binary digits, and the
  sum of two numbers is the exact sum rounded to the nearest such integer, to the one with the
  even significand on a tie, or an infinity from \<open>2 ^ 1024\<close> on. So every sum and difference
  below is rounded, and
  \<^item> up to \<open>2 ^ 53\<close> in magnitude nothing is lost (\<open>round_double_exact\<close>);
  \<^item> negative zero is not told apart from zero: no operation of the engine distinguishes them.
\<close>

function bit_length :: "int \<Rightarrow> nat" where
  "bit_length x = (if x \<le> 0 then 0 else Suc (bit_length (x div 2)))"
  by pat_completeness auto
termination by (relation "measure nat") auto

declare bit_length.simps [simp del]

text \<open>
  The nearest integer with 53 significant digits: \<open>e\<close> is the number of digits dropped,
  \<open>q\<close> the significand kept and \<open>r\<close> the part below it.
\<close>

definition round_double :: "int \<Rightarrow> int" where
  "round_double x =
     (let a = \<bar>x\<bar>;
          e = bit_length a - 53;
          q = a div 2 ^ e;
          r = a mod 2 ^ e;
          q' = (if 2 ^ e < 2 * r \<or> (2 * r = 2 ^ e \<and> odd q) then q + 1 else q)
      in sgn x * (q' * 2 ^ e))"

text \<open>
  Two reads can leave the numbers: an array read outside the array (\<^verbatim>\<open>undefined\<close>) and
  arithmetic on it (\<^verbatim>\<open>NaN\<close>); a sum can leave the integers for an infinity; and
  \<^verbatim>\<open>JSON.parse(JSON.stringify(state))\<close> turns \<^verbatim>\<open>NaN\<close> and the infinities into
  \<^verbatim>\<open>null\<close>. The field \<^verbatim>\<open>point_pool.spent\<close> is the only one the engine can write
  such a value to, so it alone has type \<open>jsval\<close>.
\<close>

datatype jsval = Num int | PosInf | NegInf | NaN | Null | Undefined

text \<open>The number an exact integer result becomes.\<close>

definition js_number :: "int \<Rightarrow> jsval" where
  "js_number x =
     (let r = round_double x in
      if 2 ^ 1024 \<le> r then PosInf else if r \<le> - (2 ^ 1024) then NegInf else Num r)"

text \<open>\<^verbatim>\<open>ToNumber\<close>, whose result is one of \<open>Num\<close>, \<open>PosInf\<close>, \<open>NegInf\<close> and \<open>NaN\<close>.\<close>

fun to_number :: "jsval \<Rightarrow> jsval" where
  "to_number Null = Num 0"
| "to_number Undefined = NaN"
| "to_number v = v"

fun number_neg :: "jsval \<Rightarrow> jsval" where
  "number_neg (Num n) = Num (- n)"
| "number_neg PosInf = NegInf"
| "number_neg NegInf = PosInf"
| "number_neg v = NaN"

fun number_add :: "jsval \<Rightarrow> jsval \<Rightarrow> jsval" where
  "number_add (Num a) (Num b) = js_number (a + b)"
| "number_add (Num a) PosInf = PosInf"
| "number_add (Num a) NegInf = NegInf"
| "number_add PosInf (Num b) = PosInf"
| "number_add PosInf PosInf = PosInf"
| "number_add NegInf (Num b) = NegInf"
| "number_add NegInf NegInf = NegInf"
| "number_add a b = NaN"

text \<open>\<^verbatim>\<open>a < b\<close> on numbers: false as soon as one side is \<^verbatim>\<open>NaN\<close>.\<close>

fun number_lt :: "jsval \<Rightarrow> jsval \<Rightarrow> bool" where
  "number_lt (Num a) (Num b) = (a < b)"
| "number_lt (Num a) PosInf = True"
| "number_lt NegInf (Num b) = True"
| "number_lt NegInf PosInf = True"
| "number_lt a b = False"

definition js_add :: "jsval \<Rightarrow> jsval \<Rightarrow> jsval" where
  "js_add a b = number_add (to_number a) (to_number b)"

definition js_sub :: "jsval \<Rightarrow> jsval \<Rightarrow> jsval" where
  "js_sub a b = number_add (to_number a) (number_neg (to_number b))"

definition js_lt :: "jsval \<Rightarrow> jsval \<Rightarrow> bool" where
  "js_lt a b = number_lt (to_number a) (to_number b)"

text \<open>\<^verbatim>\<open>a >= b\<close>: \<^verbatim>\<open>b < a\<close> or equal, and false as soon as one side is \<^verbatim>\<open>NaN\<close>.\<close>

definition js_ge :: "jsval \<Rightarrow> jsval \<Rightarrow> bool" where
  "js_ge a b = (to_number a \<noteq> NaN \<and> to_number b \<noteq> NaN
                \<and> \<not> number_lt (to_number a) (to_number b))"

text \<open>\<^verbatim>\<open>a !== b\<close>: \<^verbatim>\<open>NaN\<close> differs from everything, itself included.\<close>

fun js_strict_neq :: "jsval \<Rightarrow> jsval \<Rightarrow> bool" where
  "js_strict_neq (Num a) (Num b) = (a \<noteq> b)"
| "js_strict_neq PosInf PosInf = False"
| "js_strict_neq NegInf NegInf = False"
| "js_strict_neq Null Null = False"
| "js_strict_neq Undefined Undefined = False"
| "js_strict_neq _ _ = True"

text \<open>\<^verbatim>\<open>xs[i]\<close> for an integer \<open>i\<close>: \<^verbatim>\<open>undefined\<close> outside the array.\<close>

definition js_index :: "int list \<Rightarrow> int \<Rightarrow> jsval" where
  "js_index xs i = (if 0 \<le> i \<and> i < int (length xs) then Num (xs ! nat i) else Undefined)"

text \<open>What a JSON round trip does to a number-valued field.\<close>

fun json_roundtrip :: "jsval \<Rightarrow> jsval" where
  "json_roundtrip NaN = Null"
| "json_roundtrip PosInf = Null"
| "json_roundtrip NegInf = Null"
| "json_roundtrip v = v"

text \<open>\<^verbatim>\<open>Array.prototype.findIndex\<close>; \<open>None\<close> stands for \<open>-1\<close>.\<close>

fun findIndex :: "('a \<Rightarrow> bool) \<Rightarrow> 'a list \<Rightarrow> nat option" where
  "findIndex P [] = None"
| "findIndex P (x # xs) = (if P x then Some 0 else map_option Suc (findIndex P xs))"

section \<open>Data model (state.js)\<close>

text \<open>
  The objects of \<^verbatim>\<open>create_node\<close>, \<^verbatim>\<open>create_connection\<close> and \<^verbatim>\<open>create_tree\<close>,
  with the fields the engine reads. The field \<^verbatim>\<open>id\<close> is \<open>node_id\<close>, \<open>conn_id\<close> or
  \<open>tree_id\<close> according to its object, and \<^verbatim>\<open>point_pool.total\<close> is \<open>total_points\<close>.
  Numbers are integers. A connection has a \<^verbatim>\<open>logic\<close> only when \<^verbatim>\<open>add_connection\<close>
  was given one.
\<close>

record node =
  node_id :: string
  max_rank :: int
  current_rank :: int
  cost_per_rank :: "int list"
  prerequisite_logic :: string
  prerequisite_threshold :: int

record connection =
  conn_id :: string
  from_node_id :: string
  to_node_id :: string
  required_rank :: int
  logic :: "string option"

record point_pool =
  total_points :: int
  spent :: jsval

record tree =
  tree_id :: string
  point_pool :: point_pool
  nodes :: "node list"
  connections :: "connection list"

text \<open>
  The application state, flattened to the fields the engine reads or writes:
  \<^verbatim>\<open>project.trees\<close>, \<^verbatim>\<open>project.settings.allow_refunds\<close>,
  \<^verbatim>\<open>project.settings.cascade_refunds\<close>, \<^verbatim>\<open>project.metadata.modified_at\<close> and
  \<^verbatim>\<open>ui_state.mode\<close>.
\<close>

record state =
  trees :: "tree list"
  allow_refunds :: bool
  cascade_refunds :: bool
  modified_at :: string
  mode :: string

definition create_node :: "string \<Rightarrow> node" where
  "create_node i = \<lparr>node_id = i, max_rank = 1, current_rank = 0, cost_per_rank = [1],
     prerequisite_logic = ''AND'', prerequisite_threshold = 1\<rparr>"

definition create_connection :: "string \<Rightarrow> string \<Rightarrow> string \<Rightarrow> connection" where
  "create_connection i from_id to_id =
     \<lparr>conn_id = i, from_node_id = from_id, to_node_id = to_id, required_rank = 1, logic = None\<rparr>"

definition create_tree :: "string \<Rightarrow> tree" where
  "create_tree i = \<lparr>tree_id = i, point_pool = \<lparr>total_points = 20, spent = Num 0\<rparr>,
     nodes = [], connections = []\<rparr>"

text \<open>
  \<^verbatim>\<open>clone_state\<close> is \<^verbatim>\<open>JSON.parse(JSON.stringify(state))\<close>: a copy, in which a
  \<open>spent\<close> that was \<^verbatim>\<open>NaN\<close> or an infinity has become \<^verbatim>\<open>null\<close>.
\<close>

definition clone_tree :: "tree \<Rightarrow> tree" where
  "clone_tree t = t\<lparr>point_pool := (point_pool t)\<lparr>spent := json_roundtrip (spent (point_pool t))\<rparr>\<rparr>"

definition clone_state :: "state \<Rightarrow> state" where
  "clone_state s = s\<lparr>trees := map clone_tree (trees s)\<rparr>"

text \<open>The clock is a parameter: \<open>now\<close> is what \<^verbatim>\<open>new Date().toISOString()\<close> returns.\<close>

definition touch_modified :: "string \<Rightarrow> state \<Rightarrow> state" where
  "touch_modified now s = (clone_state s)\<lparr>modified_at := now\<rparr>"

definition find_tree :: "state \<Rightarrow> string \<Rightarrow> tree option" where
  "find_tree s tid = find (\<lambda>tree. tree_id tree = tid) (trees s)"

definition find_node :: "state \<Rightarrow> string \<Rightarrow> string \<Rightarrow> node option" where
  "find_node s tid nid =
     (case find_tree s tid of
        None \<Rightarrow> None
      | Some tree \<Rightarrow> find (\<lambda>node. node_id node = nid) (nodes tree))"

definition get_tree_index :: "state \<Rightarrow> string \<Rightarrow> nat option" where
  "get_tree_index s tid = findIndex (\<lambda>tree. tree_id tree = tid) (trees s)"

definition get_node_index :: "tree \<Rightarrow> string \<Rightarrow> nat option" where
  "get_node_index tree nid = findIndex (\<lambda>node. node_id node = nid) (nodes tree)"

section \<open>Prerequisites and node status (validation engine)\<close>

datatype node_status = LOCKED | UNLOCKABLE | ACTIVE | MAXED | INVALID

function check_prerequisites :: "state \<Rightarrow> string \<Rightarrow> string \<Rightarrow> bool"
  and is_connection_satisfied :: "state \<Rightarrow> string \<Rightarrow> connection \<Rightarrow> bool" where
  "check_prerequisites s tid nid =
     (case find_tree s tid of
        None \<Rightarrow> False
      | Some tree \<Rightarrow>
          let incoming = filter (\<lambda>c. to_node_id c = nid) (connections tree) in
          if length incoming = 0 then True
          else (case find_node s tid nid of
                  None \<Rightarrow> False
                | Some node \<Rightarrow>
                    let lgc = (if prerequisite_logic node = [] then ''AND''
                               else prerequisite_logic node) in
                    if lgc = ''AND'' then
                      list_all (\<lambda>conn. is_connection_satisfied s tid conn) incoming
                    else if lgc = ''OR'' then
                      list_ex (\<lambda>conn. is_connection_satisfied s tid conn) incoming
                    else if lgc = ''SUM'' then
                      let threshold = (if prerequisite_threshold node = 0 then 1
                                       else prerequisite_threshold node);
                          total_rank = fold (\<lambda>conn acc.
                              case find_node s tid (from_node_id conn) of
                                None \<Rightarrow> acc
                              | Some from_node \<Rightarrow> js_add acc (Num (current_rank from_node)))
                            incoming (Num 0)
                      in js_ge total_rank (Num threshold)
                    else True))"
| "is_connection_satisfied s tid conn =
     (case find_node s tid (to_node_id conn) of
        None \<Rightarrow> False
      | Some to_node \<Rightarrow>
          (case find_node s tid (from_node_id conn) of
             None \<Rightarrow> False
           | Some from_node \<Rightarrow>
               if prerequisite_logic to_node = ''SUM'' then
                 check_prerequisites s tid (to_node_id conn)
               else current_rank from_node \<ge> required_rank conn))"
  by pat_completeness auto
termination
  apply (relation "measure (\<lambda>x. case x of
            Inl (s, tid, nid) \<Rightarrow> 1
          | Inr (s, tid, c) \<Rightarrow>
              (case find_node s tid (to_node_id c) of
                 Some n \<Rightarrow> if prerequisite_logic n = ''SUM'' then 2 else 0
               | None \<Rightarrow> 0))")
     apply simp_all
   apply (auto split: if_splits)
  done

declare check_prerequisites.simps [simp del] is_connection_satisfied.simps [simp del]

definition get_node_status :: "state \<Rightarrow> string \<Rightarrow> string \<Rightarrow> node_status" where
  "get_node_status s tid nid =
     (case find_tree s tid of
        None \<Rightarrow> INVALID
      | Some tree \<Rightarrow>
          (case find_node s tid nid of
             None \<Rightarrow> INVALID
           | Some node \<Rightarrow>
               if \<not> check_prerequisites s tid nid then LOCKED
               else if current_rank node = 0 then UNLOCKABLE
               else if current_rank node \<ge> max_rank node then MAXED
               else ACTIVE))"

section \<open>Point allocation\<close>

definition get_allocation_cost :: "node \<Rightarrow> jsval" where
  "get_allocation_cost node =
     js_index (cost_per_rank node)
       (min (current_rank node) (int (length (cost_per_rank node)) - 1))"

record allocate_check =
  can_allocate :: bool
  reason :: "string option"

definition can_allocate_point :: "state \<Rightarrow> string \<Rightarrow> string \<Rightarrow> allocate_check" where
  "can_allocate_point s tid nid =
     (case find_tree s tid of
        None \<Rightarrow> \<lparr>can_allocate = False, reason = Some ''Tree not found''\<rparr>
      | Some tree \<Rightarrow>
          (case find_node s tid nid of
             None \<Rightarrow> \<lparr>can_allocate = False, reason = Some ''Node not found''\<rparr>
           | Some node \<Rightarrow>
               if mode s = ''edit'' then
                 (if current_rank node \<ge> max_rank node then
                    \<lparr>can_allocate = False, reason = Some ''Maximum rank reached''\<rparr>
                  else
                    let cost = get_allocation_cost node;
                        available = js_sub (Num (total_points (point_pool tree)))
                                      (spent (point_pool tree))
                    in if js_lt available cost then
                         \<lparr>can_allocate = False, reason = Some ''Not enough points''\<rparr>
                       else \<lparr>can_allocate = True, reason = None\<rparr>)
               else
                 let status = get_node_status s tid nid in
                 if status = LOCKED then
                   \<lparr>can_allocate = False, reason = Some ''Prerequisites not met''\<rparr>
                 else if status = MAXED then
                   \<lparr>can_allocate = False, reason = Some ''Maximum rank reached''\<rparr>
                 else if status = INVALID then
                   \<lparr>can_allocate = False, reason = Some ''Invalid node state''\<rparr>
                 else
                   let cost = get_allocation_cost node;
                       available = js_sub (Num (total_points (point_pool tree)))
                                     (spent (point_pool tree))
                   in if js_lt available cost then
                        \<lparr>can_allocate = False, reason = Some ''Not enough points''\<rparr>
                      else \<lparr>can_allocate = True, reason = None\<rparr>))"

text \<open>
  \<^verbatim>\<open>allocate_point\<close> (actions.js) works on a clone of the state and returns either the
  caller's state itself or the modified clone. The new rank is a sum of numbers like any
  other; it is below \<^verbatim>\<open>max_rank\<close> before the addition, so it is no infinity after it.
\<close>

definition allocate_point :: "string \<Rightarrow> state \<Rightarrow> string \<Rightarrow> string \<Rightarrow> state" where
  "allocate_point now s tid nid =
     (let new_state = touch_modified now (clone_state s) in
      case get_tree_index new_state tid of
        None \<Rightarrow> s
      | Some tree_index \<Rightarrow>
          let tree = trees new_state ! tree_index in
          (case get_node_index tree nid of
             None \<Rightarrow> s
           | Some node_index \<Rightarrow>
               let node = nodes tree ! node_index in
               if current_rank node \<ge> max_rank node then s
               else
                 let cost_index = min (current_rank node) (int (length (cost_per_rank node)) - 1);
                     cost = js_index (cost_per_rank node) cost_index;
                     available = js_sub (Num (total_points (point_pool tree)))
                                   (spent (point_pool tree))
                 in if js_lt available cost then s
                    else
                      new_state\<lparr>trees := (trees new_state)[tree_index :=
                        tree\<lparr>nodes := (nodes tree)[node_index :=
                                 node\<lparr>current_rank := round_double (current_rank node + 1)\<rparr>],
                             point_pool := (point_pool tree)\<lparr>spent :=
                                 js_add (spent (point_pool tree)) cost\<rparr>\<rparr>]\<rparr>))"

section \<open>Refunds and the cascade (actions.js)\<close>

text \<open>
  The loop \<^verbatim>\<open>for (let i = 0; i < rank; i++)\<close> over the ranks a node holds, from the
  value \<open>i\<close> of the counter on. The counter is a number: \<^verbatim>\<open>i++\<close> is a rounded sum, and
  at \<open>2 ^ 53\<close> it leaves the counter where it is. \<open>None\<close> stands for a loop that does not end.
\<close>

partial_function (option) for_each_rank ::
    "(int \<Rightarrow> jsval \<Rightarrow> jsval) \<Rightarrow> int \<Rightarrow> int \<Rightarrow> jsval \<Rightarrow> jsval option" where
  "for_each_rank body rank i acc =
     (if i < rank then for_each_rank body rank (round_double (i + 1)) (body i acc)
      else Some acc)"

declare for_each_rank.simps [code]

text \<open>
  The inner loop of the cascade: one subtraction per rank held, with the cost index clamped
  to the last entry of \<^verbatim>\<open>cost_per_rank\<close>.
\<close>

definition refund_all_ranks :: "node \<Rightarrow> jsval \<Rightarrow> jsval option" where
  "refund_all_ranks node sp =
     for_each_rank
       (\<lambda>i acc. js_sub acc (js_index (cost_per_rank node)
                   (min i (int (length (cost_per_rank node)) - 1))))
       (current_rank node) 0 sp"

text \<open>
  One iteration of \<^verbatim>\<open>for (const node of tree.nodes)\<close>. The tree being mutated is the
  one at position \<open>ti\<close> of the state, so that \<open>check_prerequisites\<close> sees every rank the
  pass has already reset. The flag is the variable \<^verbatim>\<open>changed\<close>.
\<close>

definition cascade_node :: "string \<Rightarrow> nat \<Rightarrow> nat \<Rightarrow> state \<times> bool \<Rightarrow> (state \<times> bool) option" where
  "cascade_node tid ti i acc =
     (case acc of (st, changed) \<Rightarrow>
        let tree = trees st ! ti;
            node = nodes tree ! i
        in if current_rank node > 0 then
             (if \<not> check_prerequisites st tid (node_id node) then
                (case refund_all_ranks node (spent (point_pool tree)) of
                   None \<Rightarrow> None
                 | Some refunded \<Rightarrow>
                     Some (st\<lparr>trees := (trees st)[ti :=
                       tree\<lparr>point_pool := (point_pool tree)\<lparr>spent := refunded\<rparr>,
                            nodes := (nodes tree)[i := node\<lparr>current_rank := 0\<rparr>]\<rparr>]\<rparr>, True))
              else Some (st, changed))
           else Some (st, changed))"

definition cascade_pass :: "string \<Rightarrow> nat \<Rightarrow> state \<Rightarrow> (state \<times> bool) option" where
  "cascade_pass tid ti s =
     fold (\<lambda>i acc. Option.bind acc (cascade_node tid ti i))
       [0..<length (nodes (trees s ! ti))] (Some (s, False))"

text \<open>
  The quantity the loop consumes: the ranks held across a tree. A rank below zero holds
  nothing, so it counts as zero.
\<close>

definition total_allocated_rank :: "tree \<Rightarrow> nat" where
  "total_allocated_rank t = sum_list (map (\<lambda>n. nat (current_rank n)) (nodes t))"

text \<open>
  \<^verbatim>\<open>while (changed)\<close>. The reference \<^verbatim>\<open>tree\<close> is the position \<open>ti\<close>; it is
  a position of the state wherever \<open>apply_cascade_refunds\<close> calls the loop, and the
  guard says so.
\<close>

function cascade_while :: "string \<Rightarrow> nat \<Rightarrow> state \<Rightarrow> state option" where
  "cascade_while tid ti s =
     (if ti < length (trees s) then
        (case cascade_pass tid ti s of
           None \<Rightarrow> None
         | Some (s', changed) \<Rightarrow> if changed then cascade_while tid ti s' else Some s')
      else Some s)"
  by pat_completeness auto

text \<open>
  \<^verbatim>\<open>find_tree\<close> returns the first tree with the given id, which is the tree at
  \<open>get_tree_index\<close>. The source mutates its argument; the model returns the new state.
\<close>

definition apply_cascade_refunds :: "state \<Rightarrow> string \<Rightarrow> state option" where
  "apply_cascade_refunds s tid =
     (case get_tree_index s tid of
        None \<Rightarrow> Some s
      | Some ti \<Rightarrow> cascade_while tid ti s)"

definition refund_point :: "string \<Rightarrow> state \<Rightarrow> string \<Rightarrow> string \<Rightarrow> state option" where
  "refund_point now s tid nid =
     (let new_state = touch_modified now (clone_state s) in
      if \<not> allow_refunds new_state then Some s
      else
        case get_tree_index new_state tid of
          None \<Rightarrow> Some s
        | Some tree_index \<Rightarrow>
            let tree = trees new_state ! tree_index in
            (case get_node_index tree nid of
               None \<Rightarrow> Some s
             | Some node_index \<Rightarrow>
                 let node = nodes tree ! node_index in
                 if current_rank node \<le> 0 then Some s
                 else
                   let cost_index = min (round_double (current_rank node - 1))
                                        (int (length (cost_per_rank node)) - 1);
                       refund = js_index (cost_per_rank node) cost_index;
                       refunded = new_state\<lparr>trees := (trees new_state)[tree_index :=
                         tree\<lparr>nodes := (nodes tree)[node_index :=
                                  node\<lparr>current_rank := round_double (current_rank node - 1)\<rparr>],
                              point_pool := (point_pool tree)\<lparr>spent :=
                                  js_sub (spent (point_pool tree)) refund\<rparr>\<rparr>]\<rparr>
                   in if mode new_state \<noteq> ''edit'' \<or> cascade_refunds new_state
                      then apply_cascade_refunds refunded tid
                      else Some refunded))"

section \<open>Recomputing the spent points (validation engine)\<close>

definition calculate_spent_points :: "tree \<Rightarrow> jsval option" where
  "calculate_spent_points tree =
     fold (\<lambda>node total.
             Option.bind total
               (for_each_rank
                  (\<lambda>i acc. js_add acc (js_index (cost_per_rank node)
                              (min i (int (length (cost_per_rank node)) - 1))))
                  (current_rank node) 0))
          (nodes tree) (Some (Num 0))"

section \<open>Cycle detection (validation engine)\<close>

text \<open>
  \<^verbatim>\<open>Array.prototype.indexOf\<close> (\<open>-1\<close> when absent) and \<^verbatim>\<open>Array.prototype.slice\<close> with
  one argument (a negative start counts from the end).
\<close>

fun indexOf :: "'a list \<Rightarrow> 'a \<Rightarrow> int" where
  "indexOf [] x = -1"
| "indexOf (y # ys) x =
     (if y = x then 0 else (let r = indexOf ys x in if r < 0 then -1 else r + 1))"

definition slice_from :: "'a list \<Rightarrow> int \<Rightarrow> 'a list" where
  "slice_from xs start =
     (if start < 0 then drop (nat (max 0 (int (length xs) + start))) xs
      else drop (nat start) xs)"

text \<open>
  A \<^verbatim>\<open>TypeError\<close>: what reading a property of \<^verbatim>\<open>null\<close>, calling what is no
  function and iterating what cannot be iterated throw.
\<close>

datatype error = TypeError

text \<open>
  The adjacency object is a plain object, \<^verbatim>\<open>{}\<close>: a read \<^verbatim>\<open>adjacency[id]\<close> that finds
  no key of the object itself goes on to the object's prototype. The object's own keys are an
  association list from node ids to arrays of targets. The key \<^verbatim>\<open>__proto__\<close> is the
  accessor of the prototype: assigning an array to it makes the array the prototype, reading
  it returns the prototype, so its cell in the list stands for that array, and it is found,
  emptied and pushed to like any other cell. What a read outside the cells finds:
  \<^item> with no such array, the members of \<^verbatim>\<open>Object.prototype\<close> (functions), and
    \<^verbatim>\<open>Object.prototype\<close> itself under \<^verbatim>\<open>__proto__\<close>;
  \<^item> with the array \<open>p\<close> as prototype, its \<^verbatim>\<open>length\<close>, its elements under their
    indices, then the members of \<^verbatim>\<open>Array.prototype\<close> and of \<^verbatim>\<open>Object.prototype\<close>.
  The member names are those of ECMAScript 2023, Annex B included.
\<close>

definition object_prototype_members :: "string list" where
  "object_prototype_members =
     [''constructor'', ''hasOwnProperty'', ''isPrototypeOf'', ''propertyIsEnumerable'',
      ''toLocaleString'', ''toString'', ''valueOf'', ''__defineGetter__'', ''__defineSetter__'',
      ''__lookupGetter__'', ''__lookupSetter__'']"

definition array_prototype_members :: "string list" where
  "array_prototype_members =
     [''at'', ''concat'', ''constructor'', ''copyWithin'', ''entries'', ''every'', ''fill'',
      ''filter'', ''find'', ''findIndex'', ''findLast'', ''findLastIndex'', ''flat'', ''flatMap'',
      ''forEach'', ''includes'', ''indexOf'', ''join'', ''keys'', ''lastIndexOf'', ''map'', ''pop'',
      ''push'', ''reduce'', ''reduceRight'', ''reverse'', ''shift'', ''slice'', ''some'', ''sort'',
      ''splice'', ''toLocaleString'', ''toReversed'', ''toSorted'', ''toSpliced'', ''toString'',
      ''unshift'', ''values'', ''with'']"

text \<open>The key under which an array holds its element at a position: the position in decimal.\<close>

definition digit_char :: "nat \<Rightarrow> char" where
  "digit_char d = char_of (48 + d)"

function index_key :: "nat \<Rightarrow> string" where
  "index_key n = (if n < 10 then [digit_char n] else index_key (n div 10) @ [digit_char (n mod 10)])"
  by pat_completeness auto
termination by (relation "measure id") auto

declare index_key.simps [simp del]

text \<open>
  What \<^verbatim>\<open>adjacency[id]\<close> evaluates to: an array of targets, the length or an element of
  the array that is the prototype, a member of a prototype (a function, or
  \<^verbatim>\<open>Object.prototype\<close>), or \<^verbatim>\<open>undefined\<close>.
\<close>

datatype property = Array "string list" | Length nat | Element string | Member | Missing

definition adjacency_get :: "(string \<times> string list) list \<Rightarrow> string \<Rightarrow> property" where
  "adjacency_get adjacency k =
     (case map_of adjacency k of
        Some targets \<Rightarrow> Array targets
      | None \<Rightarrow>
          (case map_of adjacency ''__proto__'' of
             None \<Rightarrow>
               if k = ''__proto__'' \<or> k \<in> set object_prototype_members then Member else Missing
           | Some p \<Rightarrow>
               if k = ''length'' then Length (length p)
               else (case find (\<lambda>i. index_key i = k) [0..<length p] of
                       Some i \<Rightarrow> Element (p ! i)
                     | None \<Rightarrow>
                         if k \<in> set array_prototype_members \<or> k \<in> set object_prototype_members
                         then Member else Missing)))"

text \<open>
  \<^verbatim>\<open>if (adjacency[from]) adjacency[from].push(to)\<close>: an array takes the target; zero, the
  empty string and \<^verbatim>\<open>undefined\<close> are falsy and skip the connection; anything else is
  truthy and has no \<^verbatim>\<open>push\<close>, so the call throws.
\<close>

definition adjacency_push :: "connection \<Rightarrow> error + (string \<times> string list) list
      \<Rightarrow> error + (string \<times> string list) list" where
  "adjacency_push conn acc =
     (case acc of
        Inl e \<Rightarrow> Inl e
      | Inr adjacency \<Rightarrow>
          (case adjacency_get adjacency (from_node_id conn) of
             Array targets \<Rightarrow>
               Inr (AList.update (from_node_id conn) (targets @ [to_node_id conn]) adjacency)
           | Length n \<Rightarrow> if n = 0 then Inr adjacency else Inl TypeError
           | Element e \<Rightarrow> if e = [] then Inr adjacency else Inl TypeError
           | Member \<Rightarrow> Inl TypeError
           | Missing \<Rightarrow> Inr adjacency))"

definition build_adjacency :: "tree \<Rightarrow> error + (string \<times> string list) list" where
  "build_adjacency tree =
     fold adjacency_push (connections tree)
       (Inr (fold (\<lambda>node adjacency. AList.update (node_id node) [] adjacency) (nodes tree) []))"

text \<open>
  \<^verbatim>\<open>adjacency[node_id] || []\<close>, as the list the \<^verbatim>\<open>for ... of\<close> loop runs over: the
  targets of an array, nothing for a falsy value, the characters of a string one by one, and
  a throw for what cannot be iterated.
\<close>

definition neighbors_of :: "(string \<times> string list) list \<Rightarrow> string \<Rightarrow> error + string list" where
  "neighbors_of adjacency nid =
     (case adjacency_get adjacency nid of
        Array targets \<Rightarrow> Inr targets
      | Length n \<Rightarrow> if n = 0 then Inr [] else Inl TypeError
      | Element e \<Rightarrow> Inr (map (\<lambda>c. [c]) e)
      | Member \<Rightarrow> Inl TypeError
      | Missing \<Rightarrow> Inr [])"

text \<open>The three variables the depth-first search shares.\<close>

record dfs_state =
  visited :: "string set"
  rec_stack :: "string set"
  path :: "string list"

text \<open>
  \<open>dfs\<close> is the inner function of \<^verbatim>\<open>detect_cycle\<close>; \<open>dfs_neighbors\<close> is its
  \<^verbatim>\<open>for\<close> loop over the neighbours that are left, followed by the pop.
  The result is the cycle, or \<open>None\<close> for \<^verbatim>\<open>null\<close>, with the variables as they are on
  return.
\<close>

function dfs :: "(string \<times> string list) list \<Rightarrow> string \<Rightarrow> dfs_state
        \<Rightarrow> error + (string list option \<times> dfs_state)"
  and dfs_neighbors :: "(string \<times> string list) list \<Rightarrow> string \<Rightarrow> string list \<Rightarrow> dfs_state
        \<Rightarrow> error + (string list option \<times> dfs_state)" where
  "dfs adjacency nid st =
     (case neighbors_of adjacency nid of
        Inl e \<Rightarrow> Inl e
      | Inr ns \<Rightarrow>
          dfs_neighbors adjacency nid ns
            (st\<lparr>visited := insert nid (visited st),
                rec_stack := insert nid (rec_stack st),
                path := path st @ [nid]\<rparr>))"
| "dfs_neighbors adjacency nid [] st =
     Inr (None, st\<lparr>path := butlast (path st), rec_stack := rec_stack st - {nid}\<rparr>)"
| "dfs_neighbors adjacency nid (neighbor # rest) st =
     (if neighbor \<notin> visited st then
        (case dfs adjacency neighbor st of
           Inl e \<Rightarrow> Inl e
         | Inr (Some cycle, st') \<Rightarrow> Inr (Some cycle, st')
         | Inr (None, st') \<Rightarrow> dfs_neighbors adjacency nid rest st')
      else if neighbor \<in> rec_stack st then
        Inr (Some (slice_from (path st) (indexOf (path st) neighbor)), st)
      else dfs_neighbors adjacency nid rest st)"
  by pat_completeness auto

text \<open>The outer loop over \<^verbatim>\<open>tree.nodes\<close>.\<close>

fun detect_cycle_from :: "(string \<times> string list) list \<Rightarrow> node list \<Rightarrow> dfs_state
        \<Rightarrow> error + string list option" where
  "detect_cycle_from adjacency [] st = Inr None"
| "detect_cycle_from adjacency (node # rest) st =
     (if node_id node \<notin> visited st then
        (case dfs adjacency (node_id node) st of
           Inl e \<Rightarrow> Inl e
         | Inr (Some cycle, st') \<Rightarrow> Inr (Some cycle)
         | Inr (None, st') \<Rightarrow> detect_cycle_from adjacency rest st')
      else detect_cycle_from adjacency rest st)"

definition detect_cycle :: "tree \<Rightarrow> error + string list option" where
  "detect_cycle tree =
     (case build_adjacency tree of
        Inl e \<Rightarrow> Inl e
      | Inr adjacency \<Rightarrow>
          detect_cycle_from adjacency (nodes tree) \<lparr>visited = {}, rec_stack = {}, path = []\<rparr>)"

section \<open>Validation of a tree (validation engine)\<close>

text \<open>An error or a warning: its code, with the details it carries.\<close>

datatype issue =
    ERR_TREE_NOT_FOUND
  | ERR_DUPLICATE_NODE_ID string
  | ERR_INVALID_CONNECTION_SOURCE string string
  | ERR_INVALID_CONNECTION_TARGET string string
  | ERR_CYCLIC_DEPENDENCY "string list"
  | WARN_POINT_POOL_MISMATCH jsval jsval
  | WARN_ORPHANED_NODE string

record validation_result =
  is_valid :: bool
  errors :: "issue list"
  warnings :: "issue list"

text \<open>
  \<^verbatim>\<open>validate_tree\<close> returns its record, or throws what \<^verbatim>\<open>detect_cycle\<close> throws, or
  does not return when \<^verbatim>\<open>calculate_spent_points\<close> does not: \<open>None\<close> stands for no return,
  \<open>Some (Inl e)\<close> for the throw.
\<close>

definition validate_tree :: "state \<Rightarrow> string \<Rightarrow> (error + validation_result) option" where
  "validate_tree s tid =
     (case find_tree s tid of
        None \<Rightarrow> Some (Inr \<lparr>is_valid = False, errors = [ERR_TREE_NOT_FOUND], warnings = []\<rparr>)
      | Some tree \<Rightarrow>
          let node_ids = map node_id (nodes tree);
              duplicate_nodes =
                map (\<lambda>i. node_ids ! i)
                  (filter (\<lambda>i. indexOf node_ids (node_ids ! i) \<noteq> int i) [0..<length node_ids]);
              errors1 = map ERR_DUPLICATE_NODE_ID duplicate_nodes;
              errors2 = concat (map (\<lambda>conn.
                  (if from_node_id conn \<notin> set node_ids
                   then [ERR_INVALID_CONNECTION_SOURCE (conn_id conn) (from_node_id conn)]
                   else []) @
                  (if to_node_id conn \<notin> set node_ids
                   then [ERR_INVALID_CONNECTION_TARGET (conn_id conn) (to_node_id conn)]
                   else [])) (connections tree))
          in case detect_cycle tree of
               Inl e \<Rightarrow> Some (Inl e)
             | Inr found \<Rightarrow>
                 let errors3 = (case found of
                                  Some cycle \<Rightarrow> [ERR_CYCLIC_DEPENDENCY cycle]
                                | None \<Rightarrow> [])
                 in case calculate_spent_points tree of
                      None \<Rightarrow> None
                    | Some calculated_spent \<Rightarrow>
                        let warnings1 =
                              (if js_strict_neq calculated_spent (spent (point_pool tree))
                               then [WARN_POINT_POOL_MISMATCH (spent (point_pool tree))
                                       calculated_spent]
                               else []);
                            warnings2 =
                              (if length (nodes tree) > 1 \<and> length (connections tree) > 0 then
                                 map (\<lambda>node. WARN_ORPHANED_NODE (node_id node))
                                   (filter (\<lambda>node.
                                      \<not> list_ex (\<lambda>c. to_node_id c = node_id node)
                                          (connections tree) \<and>
                                      \<not> list_ex (\<lambda>c. from_node_id c = node_id node)
                                          (connections tree))
                                      (nodes tree))
                               else []);
                            errs = errors1 @ errors2 @ errors3
                        in Some (Inr \<lparr>is_valid = (length errs = 0), errors = errs,
                                      warnings = warnings1 @ warnings2\<rparr>))"

section \<open>Dispatching allocations and refunds (main module)\<close>




section \<open>Adding a connection (actions.js)\<close>

text \<open>
  The \<^verbatim>\<open>options\<close> argument. An id that is absent is the empty string here: both are
  falsy, and the function tests nothing else of them before the lookup by equality.
\<close>

record connection_options =
  opt_from_node_id :: string
  opt_to_node_id :: string
  opt_logic :: "string option"
  opt_required_rank :: "int option"

text \<open>\<open>new_id\<close> is what \<^verbatim>\<open>generate_id("conn")\<close> returns.\<close>

definition add_connection ::
    "string \<Rightarrow> string \<Rightarrow> state \<Rightarrow> string \<Rightarrow> connection_options \<Rightarrow> state" where
  "add_connection new_id now s tid options =
     (if opt_from_node_id options = [] \<or> opt_to_node_id options = [] then s
      else
        let new_state = touch_modified now (clone_state s) in
        case get_tree_index new_state tid of
          None \<Rightarrow> s
        | Some tree_index \<Rightarrow>
            let tree = trees new_state ! tree_index;
                from_exists = list_ex (\<lambda>n. node_id n = opt_from_node_id options) (nodes tree);
                to_exists = list_ex (\<lambda>n. node_id n = opt_to_node_id options) (nodes tree)
            in if \<not> from_exists \<or> \<not> to_exists then s
               else
                 let duplicate = list_ex (\<lambda>c. from_node_id c = opt_from_node_id options \<and>
                                               to_node_id c = opt_to_node_id options)
                                         (connections tree)
                 in if duplicate then s
                    else
                      let connection0 = create_connection new_id (opt_from_node_id options)
                                          (opt_to_node_id options);
                          connection1 =
                            (if opt_logic options = Some ''AND'' \<or> opt_logic options = Some ''OR''
                             then connection0\<lparr>logic := opt_logic options\<rparr> else connection0);
                          connection2 =
                            (case opt_required_rank options of
                               Some r \<Rightarrow> connection1\<lparr>required_rank := r\<rparr>
                             | None \<Rightarrow> connection1)
                      in new_state\<lparr>trees := (trees new_state)[tree_index :=
                           tree\<lparr>connections := connections tree @ [connection2]\<rparr>]\<rparr>)"

section \<open>Reachability (validation engine)\<close>

text \<open>
  The \<^verbatim>\<open>for\<close> loop over the outgoing connections of the current node, on the set
  \<^verbatim>\<open>reachable\<close> and the array \<^verbatim>\<open>queue\<close>. \<^verbatim>\<open>find_node\<close> may return
  \<^verbatim>\<open>null\<close>, and the next read, \<^verbatim>\<open>target_node.prerequisite_logic\<close>, then throws.
\<close>

fun reach_outgoing :: "state \<Rightarrow> string \<Rightarrow> tree \<Rightarrow> connection list \<Rightarrow> string set \<times> string list
      \<Rightarrow> error + (string set \<times> string list)" where
  "reach_outgoing s tid tree [] (reachable, queue) = Inr (reachable, queue)"
| "reach_outgoing s tid tree (conn # rest) (reachable, queue) =
     (let target_id = to_node_id conn in
      if target_id \<in> reachable then reach_outgoing s tid tree rest (reachable, queue)
      else
        case find_node s tid target_id of
          None \<Rightarrow> Inl TypeError
        | Some target_node \<Rightarrow>
            let incoming = filter (\<lambda>c. to_node_id c = target_id) (connections tree);
                lgc = (if prerequisite_logic target_node = [] then ''AND''
                       else prerequisite_logic target_node);
                can_reach =
                  (if lgc = ''AND'' then list_all (\<lambda>c. from_node_id c \<in> reachable) incoming
                   else if lgc = ''OR'' then list_ex (\<lambda>c. from_node_id c \<in> reachable) incoming
                   else if lgc = ''SUM'' then list_ex (\<lambda>c. from_node_id c \<in> reachable) incoming
                   else False)
            in if can_reach
               then reach_outgoing s tid tree rest (insert target_id reachable, queue @ [target_id])
               else reach_outgoing s tid tree rest (reachable, queue))"

text \<open>\<^verbatim>\<open>while (head < queue.length)\<close>.\<close>

function reach_bfs :: "state \<Rightarrow> string \<Rightarrow> tree \<Rightarrow> string set \<Rightarrow> string list \<Rightarrow> nat
      \<Rightarrow> error + string set" where
  "reach_bfs s tid tree reachable queue head =
     (if head < length queue then
        (let current_id = queue ! head;
             outgoing = filter (\<lambda>c. from_node_id c = current_id) (connections tree)
         in case reach_outgoing s tid tree outgoing (reachable, queue) of
              Inl e \<Rightarrow> Inl e
            | Inr (reachable', queue') \<Rightarrow> reach_bfs s tid tree reachable' queue' (head + 1))
      else Inr reachable)"
  by pat_completeness auto

definition check_tree_reachability :: "state \<Rightarrow> string \<Rightarrow> error + string list" where
  "check_tree_reachability s tid =
     (case find_tree s tid of
        None \<Rightarrow> Inr []
      | Some tree \<Rightarrow>
          (case fold (\<lambda>node (reachable, queue).
                        if length (filter (\<lambda>c. to_node_id c = node_id node) (connections tree)) = 0
                        then (insert (node_id node) reachable, queue @ [node_id node])
                        else (reachable, queue))
                     (nodes tree) ({}, []) of
             (reachable, queue) \<Rightarrow>
               (case reach_bfs s tid tree reachable queue 0 of
                  Inl e \<Rightarrow> Inl e
                | Inr reachable' \<Rightarrow>
                    Inr (map node_id (filter (\<lambda>node. node_id node \<notin> reachable') (nodes tree))))))"

section \<open>Auxiliary notions for the proofs\<close>

text \<open>
  Nothing below is code of the repository: these are the notions the statements and the
  proofs use.
\<close>

subsection \<open>What the loops over the ranks return\<close>

text \<open>
  A loop over the ranks of a node ends exactly when the rank is at most \<open>2 ^ 53\<close>, and it
  then returns what a fold over the ranks below it returns (\<open>for_each_rank_fold\<close>). The
  functions of this subsection are the functions of the cascade with that fold in the place
  of the loop: \<open>refunded_ranks\<close> for \<open>refund_all_ranks\<close>, \<open>node_cascaded\<close> for
  \<open>cascade_node\<close>, \<open>pass_cascaded\<close> for \<open>cascade_pass\<close>, \<open>all_cascaded\<close> for
  \<open>cascade_while\<close> and \<open>recalculated\<close> for \<open>calculate_spent_points\<close>. The engine's
  function returns nothing else (\<open>cascade_pass_result\<close>, \<open>cascade_while_result\<close>,
  \<open>apply_cascade_refunds_result\<close>, \<open>calculate_spent_points_result\<close>).
\<close>

definition refunded_ranks :: "node \<Rightarrow> jsval \<Rightarrow> jsval" where
  "refunded_ranks node sp =
     fold (\<lambda>i acc. js_sub acc (js_index (cost_per_rank node)
                       (min (int i) (int (length (cost_per_rank node)) - 1))))
          [0..<nat (current_rank node)] sp"

definition zero_node :: "tree \<Rightarrow> nat \<Rightarrow> tree" where
  "zero_node tree i =
     tree\<lparr>point_pool := (point_pool tree)\<lparr>spent :=
             refunded_ranks (nodes tree ! i) (spent (point_pool tree))\<rparr>,
          nodes := (nodes tree)[i := (nodes tree ! i)\<lparr>current_rank := 0\<rparr>]\<rparr>"

definition set_tree :: "state \<Rightarrow> nat \<Rightarrow> tree \<Rightarrow> state" where
  "set_tree s ti t = s\<lparr>trees := (trees s)[ti := t]\<rparr>"

definition stable_at :: "string \<Rightarrow> nat \<Rightarrow> state \<Rightarrow> nat \<Rightarrow> bool" where
  "stable_at tid ti s i =
     (if current_rank (nodes (trees s ! ti) ! i) > 0
      then check_prerequisites s tid (node_id (nodes (trees s ! ti) ! i)) else True)"

definition node_cascaded :: "string \<Rightarrow> nat \<Rightarrow> nat \<Rightarrow> state \<times> bool \<Rightarrow> state \<times> bool" where
  "node_cascaded tid ti i acc =
     (case acc of (st, changed) \<Rightarrow>
        if stable_at tid ti st i then (st, changed)
        else (set_tree st ti (zero_node (trees st ! ti) i), True))"

definition pass_cascaded :: "string \<Rightarrow> nat \<Rightarrow> state \<Rightarrow> state \<times> bool" where
  "pass_cascaded tid ti s =
     fold (node_cascaded tid ti) [0..<length (nodes (trees s ! ti))] (s, False)"

function all_cascaded :: "string \<Rightarrow> nat \<Rightarrow> state \<Rightarrow> state" where
  "all_cascaded tid ti s =
     (if ti < length (trees s) then
        (case pass_cascaded tid ti s of
           (s', changed) \<Rightarrow> if changed then all_cascaded tid ti s' else s')
      else s)"
  by pat_completeness auto

definition recalculated :: "tree \<Rightarrow> jsval" where
  "recalculated tree =
     fold (\<lambda>node total.
             fold (\<lambda>i acc. js_add acc (js_index (cost_per_rank node)
                               (min (int i) (int (length (cost_per_rank node)) - 1))))
                  [0..<nat (current_rank node)] total)
          (nodes tree) (Num 0)"

text \<open>The ranks a loop can count through.\<close>

definition ranks_bounded :: "tree \<Rightarrow> bool" where
  "ranks_bounded t = list_all (\<lambda>n. current_rank n \<le> 2 ^ 53) (nodes t)"


subsection \<open>The cascade, the costs and the books\<close>

definition cascaded :: "tree \<Rightarrow> tree \<Rightarrow> bool" where
  "cascaded t t' \<longleftrightarrow>
     tree_id t' = tree_id t \<and> connections t' = connections t \<and>
     total_points (point_pool t') = total_points (point_pool t) \<and>
     list_all2 (\<lambda>n n'. n' = n \<or> (0 < current_rank n \<and> n' = n\<lparr>current_rank := 0\<rparr>))
       (nodes t) (nodes t')"

text \<open>
  The spec's cumulative cost of a node: the sum of \<^verbatim>\<open>cost_per_rank[min(i, length-1)]\<close>
  for \<open>i\<close> from 0 to the rank minus 1, and its sum over a tree.
\<close>

definition accumulated_cost :: "node \<Rightarrow> int" where
  "accumulated_cost n =
     (\<Sum>i\<leftarrow>[0..<nat (current_rank n)]. cost_per_rank n ! min i (length (cost_per_rank n) - 1))"

definition recomputed_cost :: "tree \<Rightarrow> int" where
  "recomputed_cost t = (\<Sum>n\<leftarrow>nodes t. accumulated_cost n)"

definition costs_nonempty :: "tree \<Rightarrow> bool" where
  "costs_nonempty t = list_all (\<lambda>n. cost_per_rank n \<noteq> []) (nodes t)"

definition costs_nonneg :: "tree \<Rightarrow> bool" where
  "costs_nonneg t = list_all (\<lambda>n. list_all (\<lambda>c. 0 \<le> c) (cost_per_rank n)) (nodes t)"

text \<open>
  A ledger the cascade keeps exactly: the cost lists of the data model, \<open>spent\<close> the number
  \<open>k\<close>, and neither \<open>k\<close> nor what is left of it once every rank is given back beyond
  \<open>2 ^ 53\<close>.
\<close>

definition exact_ledger :: "tree \<Rightarrow> int \<Rightarrow> bool" where
  "exact_ledger t k \<longleftrightarrow>
     costs_nonempty t \<and> costs_nonneg t \<and> spent (point_pool t) = Num k \<and>
     k \<le> 2 ^ 53 \<and> - (2 ^ 53) \<le> k - recomputed_cost t"

text \<open>The spec's value of the rank a refund gives back: \<^verbatim>\<open>cost_per_rank[min(rank - 1, length - 1)]\<close>.\<close>

definition refund_amount :: "node \<Rightarrow> int" where
  "refund_amount n =
     cost_per_rank n ! min (nat (current_rank n - 1)) (length (cost_per_rank n) - 1)"

text \<open>
  The accumulated costs of the nodes that hold a rank in the first list and none at the same
  position of the second: the nodes a cascade has forced to rank 0.
\<close>

definition forced_refunds :: "node list \<Rightarrow> node list \<Rightarrow> int" where
  "forced_refunds before after =
     (\<Sum>(n, n')\<leftarrow>zip before after.
        if 0 < current_rank n \<and> current_rank n' = 0 then accumulated_cost n else 0)"

text \<open>The tree after the refund of one rank of the node at position \<open>ni\<close>, before any cascade.\<close>

definition direct_refund :: "tree \<Rightarrow> nat \<Rightarrow> tree" where
  "direct_refund tree ni =
     (let node = nodes tree ! ni in
      tree\<lparr>nodes := (nodes tree)[ni :=
               node\<lparr>current_rank := round_double (current_rank node - 1)\<rparr>],
           point_pool := (point_pool tree)\<lparr>spent :=
             js_sub (spent (point_pool tree))
               (js_index (cost_per_rank node)
                  (min (round_double (current_rank node - 1))
                       (int (length (cost_per_rank node)) - 1)))\<rparr>\<rparr>)"

text \<open>The nodes a connection list can lead to, and the state a search starts from.\<close>

definition targets :: "(string \<times> string list) list \<Rightarrow> string set" where
  "targets adjacency = set (concat (map snd adjacency))"

definition reachable_ids :: "(string \<times> string list) list \<Rightarrow> string set" where
  "reachable_ids adjacency =
     targets adjacency \<union> (\<lambda>c. [c]) ` (\<Union>e\<in>targets adjacency. set e)"

text \<open>
  The data model's invariant on ranks; ranks and rank ceilings that are exact numbers with
  exact successors; a tree that costs no more than its budget, itself an exact number; and a
  tree whose books are right.
\<close>

definition ranks_nonneg :: "tree \<Rightarrow> bool" where
  "ranks_nonneg t = list_all (\<lambda>n. 0 \<le> current_rank n) (nodes t)"





text \<open>
  The two invariants of a tree's connections: no two connections join the same ordered pair
  of node ids, and both ends of every connection are ids of nodes of the tree.
\<close>

definition well_connected :: "tree \<Rightarrow> bool" where
  "well_connected t \<longleftrightarrow>
     distinct (map (\<lambda>c. (from_node_id c, to_node_id c)) (connections t)) \<and>
     list_all (\<lambda>c. from_node_id c \<in> node_id ` set (nodes t) \<and>
                   to_node_id c \<in> node_id ` set (nodes t)) (connections t)"

text \<open>
  Paths and cycles, in an adjacency list and in the connections of a tree: \<open>chain\<close> holds of
  a list whose every element is a neighbour of the one before it, and \<open>cycle_in\<close> of a
  non-empty chain whose first element is a neighbour of its last.
\<close>

definition neighbours :: "(string \<times> string list) list \<Rightarrow> string \<Rightarrow> string list" where
  "neighbours adjacency x = (case map_of adjacency x of Some ns \<Rightarrow> ns | None \<Rightarrow> [])"

fun chain :: "(string \<times> string list) list \<Rightarrow> string list \<Rightarrow> bool" where
  "chain adjacency [] = True"
| "chain adjacency [x] = True"
| "chain adjacency (x # y # rest) = (y \<in> set (neighbours adjacency x) \<and> chain adjacency (y # rest))"

definition cycle_in :: "(string \<times> string list) list \<Rightarrow> string list \<Rightarrow> bool" where
  "cycle_in adjacency cyc \<longleftrightarrow>
     cyc \<noteq> [] \<and> chain adjacency cyc \<and> hd cyc \<in> set (neighbours adjacency (last cyc))"

definition dfs_inv :: "(string \<times> string list) list \<Rightarrow> dfs_state \<Rightarrow> bool" where
  "dfs_inv adjacency st \<longleftrightarrow>
     rec_stack st = set (path st) \<and> set (path st) \<subseteq> visited st \<and>
     distinct (path st) \<and> chain adjacency (path st)"

definition edges :: "tree \<Rightarrow> (string \<times> string) set" where
  "edges t = (\<lambda>c. (from_node_id c, to_node_id c)) ` set (connections t)"

fun follows_edges :: "tree \<Rightarrow> string list \<Rightarrow> bool" where
  "follows_edges t [] = True"
| "follows_edges t [x] = True"
| "follows_edges t (x # y # rest) = ((x, y) \<in> edges t \<and> follows_edges t (y # rest))"

definition is_cycle :: "tree \<Rightarrow> string list \<Rightarrow> bool" where
  "is_cycle t cyc \<longleftrightarrow> cyc \<noteq> [] \<and> follows_edges t cyc \<and> (last cyc, hd cyc) \<in> edges t"

text \<open>
  The ids that meet nothing a plain object inherits: no node is called \<^verbatim>\<open>__proto__\<close>,
  and an end of a connection that is no node of the tree is neither \<^verbatim>\<open>__proto__\<close> nor
  the name of a member of \<^verbatim>\<open>Object.prototype\<close>.
\<close>

definition plain_ids :: "tree \<Rightarrow> bool" where
  "plain_ids t \<longleftrightarrow>
     ''__proto__'' \<notin> node_id ` set (nodes t) \<and>
     list_all (\<lambda>c. list_all (\<lambda>x. x \<in> node_id ` set (nodes t) \<or>
                                 (x \<noteq> ''__proto__'' \<and> x \<notin> set object_prototype_members))
                        [from_node_id c, to_node_id c]) (connections t)"

text \<open>The three ids of a triangle \<open>a \<rightarrow> b \<rightarrow> c \<rightarrow> a\<close>, read from \<open>x\<close> on.\<close>

definition triangle_from :: "string \<Rightarrow> string \<Rightarrow> string \<Rightarrow> string \<Rightarrow> string list" where
  "triangle_from a b c x = (if x = a then [a, b, c] else if x = b then [b, c, a] else [c, a, b])"

text \<open>The ids of the nodes of the tree that a tree id finds.\<close>

definition known_ids :: "state \<Rightarrow> string \<Rightarrow> string set" where
  "known_ids s tid =
     (case find_tree s tid of None \<Rightarrow> {} | Some t \<Rightarrow> node_id ` set (nodes t))"

text \<open>The connections that point to a node, in the order of the tree.\<close>

definition incoming_connections :: "tree \<Rightarrow> string \<Rightarrow> connection list" where
  "incoming_connections tree nid = filter (\<lambda>c. to_node_id c = nid) (connections tree)"

text \<open>
  The spec's sum for SUM logic: the ranks of the source nodes of the given connections, each
  connection adding the rank of its source, a source that is not a node of the tree adding
  nothing.
\<close>

definition source_rank_sum :: "state \<Rightarrow> string \<Rightarrow> connection list \<Rightarrow> int" where
  "source_rank_sum s tid conns =
     (\<Sum>conn\<leftarrow>conns. case find_node s tid (from_node_id conn) of
                         None \<Rightarrow> 0
                       | Some from_node \<Rightarrow> current_rank from_node)"

text \<open>
  The total the code adds up, one rounded addition per connection, and the sum of the
  magnitudes of the ranks added: up to \<open>2 ^ 53\<close> no addition rounds.
\<close>

definition source_rank_total :: "state \<Rightarrow> string \<Rightarrow> connection list \<Rightarrow> jsval" where
  "source_rank_total s tid conns =
     fold (\<lambda>conn acc. case find_node s tid (from_node_id conn) of
                         None \<Rightarrow> acc
                       | Some from_node \<Rightarrow> js_add acc (Num (current_rank from_node)))
       conns (Num 0)"

definition source_rank_magnitude :: "state \<Rightarrow> string \<Rightarrow> connection list \<Rightarrow> int" where
  "source_rank_magnitude s tid conns =
     (\<Sum>conn\<leftarrow>conns. case find_node s tid (from_node_id conn) of
                         None \<Rightarrow> 0
                       | Some from_node \<Rightarrow> \<bar>current_rank from_node\<bar>)"

text \<open>The same tree, and the same state, with every connection's \<^verbatim>\<open>required_rank\<close> replaced.\<close>

definition rerank_tree :: "(connection \<Rightarrow> int) \<Rightarrow> tree \<Rightarrow> tree" where
  "rerank_tree f t = t\<lparr>connections := map (\<lambda>c. c\<lparr>required_rank := f c\<rparr>) (connections t)\<rparr>"

definition set_required_ranks :: "(connection \<Rightarrow> int) \<Rightarrow> state \<Rightarrow> state" where
  "set_required_ranks f s = s\<lparr>trees := map (rerank_tree f) (trees s)\<rparr>"

section \<open>Example states\<close>

text \<open>
  One tree \<open>T\<close> with the nodes \<open>A\<close> and \<open>B\<close> of \<^verbatim>\<open>create_node\<close> (one rank, cost 1),
  the connection \<open>A \<rightarrow> B\<close> of \<^verbatim>\<open>create_connection\<close> (required rank 1), a budget of 20
  and the ranks \<open>a\<close> and \<open>b\<close> already paid for.
\<close>

definition two_node_state :: "string \<Rightarrow> int \<Rightarrow> int \<Rightarrow> state" where
  "two_node_state m a b =
     \<lparr>trees = [\<lparr>tree_id = ''T'',
                point_pool = \<lparr>total_points = 20, spent = Num (a + b)\<rparr>,
                nodes = [(create_node ''A'')\<lparr>current_rank := a\<rparr>,
                         (create_node ''B'')\<lparr>current_rank := b\<rparr>],
                connections = [create_connection ''c1'' ''A'' ''B'']\<rparr>],
      allow_refunds = True, cascade_refunds = False, modified_at = ''t0'', mode = m\<rparr>"

text \<open>
  One tree \<open>T\<close> whose node \<open>C\<close> has the logic \<open>lgc\<close> and the threshold \<open>thr\<close>, with the
  connections \<open>D \<rightarrow> C\<close> and \<open>E \<rightarrow> C\<close> (required rank 1) from nodes at the ranks \<open>d\<close> and
  \<open>e\<close>; every node has three ranks at cost 1.
\<close>

definition three_node_state :: "string \<Rightarrow> int \<Rightarrow> int \<Rightarrow> int \<Rightarrow> state" where
  "three_node_state lgc thr d e =
     \<lparr>trees = [\<lparr>tree_id = ''T'',
                point_pool = \<lparr>total_points = 20, spent = Num (d + e)\<rparr>,
                nodes = [(create_node ''C'')\<lparr>max_rank := 3, prerequisite_logic := lgc,
                                              prerequisite_threshold := thr\<rparr>,
                         (create_node ''D'')\<lparr>max_rank := 3, current_rank := d\<rparr>,
                         (create_node ''E'')\<lparr>max_rank := 3, current_rank := e\<rparr>],
                connections = [create_connection ''c1'' ''D'' ''C'',
                               create_connection ''c2'' ''E'' ''C'']\<rparr>],
      allow_refunds = True, cascade_refunds = False, modified_at = ''t0'', mode = ''play''\<rparr>"

text \<open>One tree \<open>T\<close> with the nodes \<open>A\<close>, \<open>B\<close>, \<open>C\<close> and the connections \<open>A \<rightarrow> B\<close>, \<open>B \<rightarrow> C\<close>, \<open>C \<rightarrow> A\<close>.\<close>

definition triangle_state :: state where
  "triangle_state =
     \<lparr>trees = [\<lparr>tree_id = ''T'',
                point_pool = \<lparr>total_points = 20, spent = Num 0\<rparr>,
                nodes = [create_node ''A'', create_node ''B'', create_node ''C''],
                connections = [create_connection ''c1'' ''A'' ''B'',
                               create_connection ''c2'' ''B'' ''C'',
                               create_connection ''c3'' ''C'' ''A'']\<rparr>],
      allow_refunds = True, cascade_refunds = False, modified_at = ''t0'', mode = ''edit''\<rparr>"

text \<open>One tree \<open>T\<close> with the single node \<open>A\<close> and a connection from \<open>A\<close> to \<open>Z\<close>, which is no node.\<close>

definition dangling_state :: state where
  "dangling_state =
     \<lparr>trees = [\<lparr>tree_id = ''T'',
                point_pool = \<lparr>total_points = 20, spent = Num 0\<rparr>,
                nodes = [create_node ''A''],
                connections = [create_connection ''c1'' ''A'' ''Z'']\<rparr>],
      allow_refunds = True, cascade_refunds = False, modified_at = ''t0'', mode = ''edit''\<rparr>"

text \<open>One tree \<open>T\<close> with the single node \<open>A\<close>, whose cost list is empty.\<close>

definition free_node_state :: state where
  "free_node_state =
     \<lparr>trees = [\<lparr>tree_id = ''T'',
                point_pool = \<lparr>total_points = 20, spent = Num 0\<rparr>,
                nodes = [(create_node ''A'')\<lparr>cost_per_rank := []\<rparr>],
                connections = []\<rparr>],
      allow_refunds = True, cascade_refunds = False, modified_at = ''t0'', mode = ''play''\<rparr>"

text \<open>
  One tree \<open>T\<close> in edit mode whose budget is the largest number there is,
  \<open>2 ^ 1024 - 2 ^ 971\<close>. \<open>B\<close> holds its one rank, and \<open>spent\<close> is its cost; the one rank of
  \<open>A\<close> costs what is left of the budget after rounding; \<open>C\<close> costs 1.
\<close>

definition overflow_state :: state where
  "overflow_state =
     \<lparr>trees = [\<lparr>tree_id = ''T'',
                point_pool = \<lparr>total_points = 2 ^ 1024 - 2 ^ 971,
                               spent = Num (2 ^ 1023 - 2 ^ 972 - 2 ^ 970)\<rparr>,
                nodes = [(create_node ''A'')\<lparr>cost_per_rank := [2 ^ 1023 + 2 ^ 972]\<rparr>,
                         (create_node ''B'')\<lparr>current_rank := 1,
                                              cost_per_rank := [2 ^ 1023 - 2 ^ 972 - 2 ^ 970]\<rparr>,
                         create_node ''C''],
                connections = []\<rparr>],
      allow_refunds = True, cascade_refunds = False, modified_at = ''t0'', mode = ''edit''\<rparr>"

text \<open>The same tree once \<open>A\<close> holds its rank too: the sum of the two costs is an infinity.\<close>

definition overflowed_state :: state where
  "overflowed_state =
     \<lparr>trees = [\<lparr>tree_id = ''T'',
                point_pool = \<lparr>total_points = 2 ^ 1024 - 2 ^ 971, spent = PosInf\<rparr>,
                nodes = [(create_node ''A'')\<lparr>current_rank := 1,
                                              cost_per_rank := [2 ^ 1023 + 2 ^ 972]\<rparr>,
                         (create_node ''B'')\<lparr>current_rank := 1,
                                              cost_per_rank := [2 ^ 1023 - 2 ^ 972 - 2 ^ 970]\<rparr>,
                         create_node ''C''],
                connections = []\<rparr>],
      allow_refunds = True, cascade_refunds = False, modified_at = ''t1'', mode = ''edit''\<rparr>"

text \<open>
  The two nodes \<open>A \<rightarrow> B\<close> with both ranks held, a budget of \<open>2 ^ 54\<close> and \<open>spent\<close> at
  \<open>2 ^ 53 + 2\<close>.
\<close>

definition heavy_spent_state :: state where
  "heavy_spent_state =
     \<lparr>trees = [\<lparr>tree_id = ''T'',
                point_pool = \<lparr>total_points = 2 ^ 54, spent = Num (2 ^ 53 + 2)\<rparr>,
                nodes = [(create_node ''A'')\<lparr>current_rank := 1\<rparr>,
                         (create_node ''B'')\<lparr>current_rank := 1\<rparr>],
                connections = [create_connection ''c1'' ''A'' ''B'']\<rparr>],
      allow_refunds = True, cascade_refunds = False, modified_at = ''t0'', mode = ''play''\<rparr>"


text \<open>
  One tree \<open>T\<close> whose node \<open>C\<close> has SUM logic and the threshold \<open>2 ^ 53 + 2\<close>, with
  connections from \<open>D\<close> at rank \<open>2 ^ 53\<close> and from \<open>E\<close> and \<open>F\<close> at rank 1.
\<close>

definition big_rank_state :: state where
  "big_rank_state =
     \<lparr>trees = [\<lparr>tree_id = ''T'',
                point_pool = \<lparr>total_points = 20, spent = Num 0\<rparr>,
                nodes = [(create_node ''C'')\<lparr>prerequisite_logic := ''SUM'',
                                              prerequisite_threshold := 2 ^ 53 + 2\<rparr>,
                         (create_node ''D'')\<lparr>max_rank := 2 ^ 53, current_rank := 2 ^ 53,
                                              cost_per_rank := [0]\<rparr>,
                         (create_node ''E'')\<lparr>current_rank := 1, cost_per_rank := [0]\<rparr>,
                         (create_node ''F'')\<lparr>current_rank := 1, cost_per_rank := [0]\<rparr>],
                connections = [create_connection ''c1'' ''D'' ''C'',
                               create_connection ''c2'' ''E'' ''C'',
                               create_connection ''c3'' ''F'' ''C'']\<rparr>],
      allow_refunds = True, cascade_refunds = False, modified_at = ''t0'', mode = ''play''\<rparr>"

text \<open>
  The two nodes \<open>A \<rightarrow> B\<close> in play mode, \<open>A\<close> at rank 0 and \<open>B\<close>, whose ranks are free,
  at rank \<open>2 ^ 53 + 2\<close>.
\<close>

definition endless_state :: state where
  "endless_state =
     \<lparr>trees = [\<lparr>tree_id = ''T'',
                point_pool = \<lparr>total_points = 20, spent = Num 0\<rparr>,
                nodes = [create_node ''A'',
                         (create_node ''B'')\<lparr>max_rank := 2 ^ 53 + 2,
                                              current_rank := 2 ^ 53 + 2,
                                              cost_per_rank := [0]\<rparr>],
                connections = [create_connection ''c1'' ''A'' ''B'']\<rparr>],
      allow_refunds = True, cascade_refunds = False, modified_at = ''t0'', mode = ''play''\<rparr>"

text \<open>
  One tree \<open>T\<close> with the single node \<open>A\<close> and one connection to it, from \<open>toString\<close>,
  which is no node; and the same tree with the connection turned round.
\<close>

definition inherited_source_state :: state where
  "inherited_source_state =
     \<lparr>trees = [\<lparr>tree_id = ''T'',
                point_pool = \<lparr>total_points = 20, spent = Num 0\<rparr>,
                nodes = [create_node ''A''],
                connections = [create_connection ''c1'' ''toString'' ''A'']\<rparr>],
      allow_refunds = True, cascade_refunds = False, modified_at = ''t0'', mode = ''edit''\<rparr>"

definition inherited_target_state :: state where
  "inherited_target_state =
     \<lparr>trees = [\<lparr>tree_id = ''T'',
                point_pool = \<lparr>total_points = 20, spent = Num 0\<rparr>,
                nodes = [create_node ''A''],
                connections = [create_connection ''c1'' ''A'' ''toString'']\<rparr>],
      allow_refunds = True, cascade_refunds = False, modified_at = ''t0'', mode = ''edit''\<rparr>"

section \<open>Numbers up to \<open>2 ^ 53\<close> are exact\<close>

lemma bit_length_le: "x < 2 ^ n \<Longrightarrow> bit_length x \<le> n"
proof (induction n arbitrary: x)
  case 0
  then show ?case by (simp add: bit_length.simps[of x])
next
  case (Suc n)
  show ?case
  proof (cases "x \<le> 0")
    case True
    then show ?thesis by (simp add: bit_length.simps[of x])
  next
    case False
    have "x div 2 < 2 ^ n" using Suc.prems by simp
    from Suc.IH[OF this] False show ?thesis by (simp add: bit_length.simps[of x])
  qed
qed

lemma round_double_small: "\<bar>x\<bar> < 2 ^ 53 \<Longrightarrow> round_double x = x"
proof -
  assume "\<bar>x\<bar> < 2 ^ 53"
  from bit_length_le[OF this] have "bit_length \<bar>x\<bar> - 53 = 0" by simp
  then show ?thesis by (simp add: round_double_def Let_def mult_sgn_abs)
qed

lemma round_double_pow53:
  "round_double (2 ^ 53) = 2 ^ 53" "round_double (- (2 ^ 53)) = - (2 ^ 53)"
  by code_simp+

text \<open>The first integer that is no number: it is rounded to its even neighbour.\<close>

lemma round_double_tie: "round_double (2 ^ 53 + 1) = 2 ^ 53"
  by code_simp

lemma round_double_exact: "\<bar>x\<bar> \<le> 2 ^ 53 \<Longrightarrow> round_double x = x"
proof (cases "\<bar>x\<bar> < 2 ^ 53")
  case True
  then show ?thesis by (rule round_double_small)
next
  case False
  assume "\<bar>x\<bar> \<le> 2 ^ 53"
  with False have "\<bar>x\<bar> = 2 ^ 53" by simp
  then consider "x = 2 ^ 53" | "x = - (2 ^ 53)" by (auto simp: abs_if split: if_splits)
  then show ?thesis
    by cases (simp_all only: round_double_pow53)
qed



lemma js_number_exact: "\<bar>x\<bar> \<le> 2 ^ 53 \<Longrightarrow> js_number x = Num x"
proof -
  assume a: "\<bar>x\<bar> \<le> 2 ^ 53"
  have "(2::int) ^ 53 < 2 ^ 1024" by simp
  with a have "x < 2 ^ 1024" "- (2 ^ 1024) < x" by linarith+
  then show ?thesis using round_double_exact[OF a] by (simp add: js_number_def)
qed

lemma js_add_exact: "\<bar>a + b\<bar> \<le> 2 ^ 53 \<Longrightarrow> js_add (Num a) (Num b) = Num (a + b)"
  by (simp add: js_add_def js_number_exact)

lemma js_sub_exact: "\<bar>a - b\<bar> \<le> 2 ^ 53 \<Longrightarrow> js_sub (Num a) (Num b) = Num (a - b)"
  by (simp add: js_sub_def js_number_exact)

lemma js_lt_Num [simp]: "js_lt (Num a) (Num b) \<longleftrightarrow> a < b"
  by (simp add: js_lt_def)

lemma js_ge_Num [simp]: "js_ge (Num a) (Num b) \<longleftrightarrow> b \<le> a"
  by (auto simp: js_ge_def)

section \<open>Lookups, clones and list positions\<close>

lemma findIndex_Some:
  "findIndex P xs = Some i \<Longrightarrow> i < length xs \<and> P (xs ! i) \<and> find P xs = Some (xs ! i)"
  by (induction xs arbitrary: i) (auto split: if_splits)

lemma findIndex_None: "findIndex P xs = None \<longleftrightarrow> find P xs = None"
  by (induction xs) auto

lemma findIndex_map:
  "(\<And>x. P (f x) = Q x) \<Longrightarrow> findIndex P (map f xs) = findIndex Q xs"
  by (induction xs) auto

lemma json_roundtrip_idem [simp]: "json_roundtrip (json_roundtrip v) = json_roundtrip v"
  by (cases v) auto

lemma clone_tree_fields [simp]:
  "tree_id (clone_tree t) = tree_id t"
  "nodes (clone_tree t) = nodes t"
  "connections (clone_tree t) = connections t"
  "total_points (point_pool (clone_tree t)) = total_points (point_pool t)"
  "spent (point_pool (clone_tree t)) = json_roundtrip (spent (point_pool t))"
  by (simp_all add: clone_tree_def)

lemma clone_tree_idem [simp]: "clone_tree (clone_tree t) = clone_tree t"
  by (simp add: clone_tree_def)

lemma clone_tree_comp [simp]: "clone_tree \<circ> clone_tree = clone_tree"
  by (rule ext) simp

lemma clone_state_idem [simp]: "clone_state (clone_state s) = clone_state s"
  by (simp add: clone_state_def)

lemma touch_modified_fields [simp]:
  "trees (touch_modified now s) = map clone_tree (trees s)"
  "allow_refunds (touch_modified now s) = allow_refunds s"
  "cascade_refunds (touch_modified now s) = cascade_refunds s"
  "mode (touch_modified now s) = mode s"
  "modified_at (touch_modified now s) = now"
  by (simp_all add: touch_modified_def clone_state_def)

lemma clone_state_fields [simp]:
  "trees (clone_state s) = map clone_tree (trees s)"
  "allow_refunds (clone_state s) = allow_refunds s"
  "cascade_refunds (clone_state s) = cascade_refunds s"
  "mode (clone_state s) = mode s"
  "modified_at (clone_state s) = modified_at s"
  by (simp_all add: clone_state_def)

lemma get_tree_index_touch [simp]:
  "get_tree_index (touch_modified now (clone_state s)) tid = get_tree_index s tid"
  by (simp add: get_tree_index_def findIndex_map)

lemma get_tree_index_Some:
  "get_tree_index s tid = Some i \<Longrightarrow>
     i < length (trees s) \<and> tree_id (trees s ! i) = tid \<and> find_tree s tid = Some (trees s ! i)"
  unfolding get_tree_index_def find_tree_def by (drule findIndex_Some) simp

lemma get_tree_index_None: "get_tree_index s tid = None \<longleftrightarrow> find_tree s tid = None"
  unfolding get_tree_index_def find_tree_def by (rule findIndex_None)

lemma get_node_index_Some:
  "get_node_index t nid = Some i \<Longrightarrow>
     i < length (nodes t) \<and> node_id (nodes t ! i) = nid
     \<and> find (\<lambda>n. node_id n = nid) (nodes t) = Some (nodes t ! i)"
  unfolding get_node_index_def by (drule findIndex_Some) simp

lemma get_node_index_None:
  "get_node_index t nid = None \<longleftrightarrow> find (\<lambda>n. node_id n = nid) (nodes t) = None"
  unfolding get_node_index_def by (rule findIndex_None)

lemma get_node_index_clone [simp]: "get_node_index (clone_tree t) nid = get_node_index t nid"
  by (simp add: get_node_index_def)

lemma js_lt_roundtrip:
  "v \<noteq> PosInf \<Longrightarrow> js_lt (js_sub (Num a) v) c \<Longrightarrow> js_lt (js_sub (Num a) (json_roundtrip v)) c"
  by (cases v; cases c) (auto simp: js_lt_def js_sub_def)

lemma find_node_cong_tree:
  "find_tree s tid = find_tree s' tid \<Longrightarrow> find_node s tid nid = find_node s' tid nid"
  by (simp add: find_node_def)

lemma list_all_update:
  "list_all P xs \<Longrightarrow> P y \<Longrightarrow> list_all P (xs[i := y])"
  by (induction xs arbitrary: i) (auto split: nat.splits)


section \<open>The depth-first search terminates\<close>

lemma dfs_visited_mono:
  "dfs_dfs_neighbors_dom (Inl (adjacency, nid, st)) \<Longrightarrow>
     dfs adjacency nid st = Inr (r, st') \<Longrightarrow> visited st \<subseteq> visited st'"
  "dfs_dfs_neighbors_dom (Inr (adjacency, nid, ns, st)) \<Longrightarrow>
     dfs_neighbors adjacency nid ns st = Inr (r, st') \<Longrightarrow> visited st \<subseteq> visited st'"
proof (induction adjacency nid st and adjacency nid ns st arbitrary: r st' and r st'
    rule: dfs_dfs_neighbors.pinduct)
  case (1 adjacency nid st)
  then show ?case by (auto simp: dfs.psimps split: sum.splits)
next
  case (2 adjacency nid st)
  then show ?case by (auto simp: dfs_neighbors.psimps)
next
  case (3 adjacency nid neighbor rest st)
  show ?case
  proof (cases "neighbor \<notin> visited st")
    case True
    show ?thesis
    proof (cases "dfs adjacency neighbor st")
      case (Inl e)
      then show ?thesis using 3(1,5) True by (simp add: dfs_neighbors.psimps)
    next
      case (Inr p)
      obtain r1 st1 where p: "p = (r1, st1)" by (cases p)
      have m: "visited st \<subseteq> visited st1" using 3(2)[OF True] Inr p by simp
      show ?thesis
      proof (cases r1)
        case None
        have "dfs_neighbors adjacency nid rest st1 = Inr (r, st')"
          using 3(1,5) True Inr p None by (simp add: dfs_neighbors.psimps)
        from 3(3)[OF True Inr p[symmetric] None this] m show ?thesis by auto
      next
        case (Some c)
        then show ?thesis using m True Inr p 3(1,5) by (auto simp: dfs_neighbors.psimps)
      qed
    qed
  next
    case False
    then show ?thesis using 3(1,4,5) by (auto simp: dfs_neighbors.psimps split: if_splits)
  qed
qed

text \<open>
  Every neighbour the search can meet is a target in a cell or one character of a target.
\<close>

lemma finite_targets [simp]: "finite (targets adjacency)"
  by (simp add: targets_def)

lemma finite_reachable_ids [simp]: "finite (reachable_ids adjacency)"
  by (simp add: reachable_ids_def)

lemma map_of_targets: "map_of adjacency x = Some ns \<Longrightarrow> set ns \<subseteq> targets adjacency"
  by (force simp: targets_def dest!: map_of_SomeD)

lemma neighbors_of_reachable:
  assumes "neighbors_of adjacency x = Inr ns"
  shows "set ns \<subseteq> reachable_ids adjacency"
proof (cases "adjacency_get adjacency x")
  case (Array targets)
  then have "map_of adjacency x = Some targets"
    by (auto simp: adjacency_get_def split: option.splits if_splits)
  then show ?thesis
    using assms Array map_of_targets by (auto simp: neighbors_of_def reachable_ids_def)
next
  case (Element e)
  then obtain p i where p: "map_of adjacency ''__proto__'' = Some p" "i < length p" "e = p ! i"
    by (auto simp: adjacency_get_def find_Some_iff split: option.splits if_splits)
  then have "e \<in> targets adjacency" using map_of_targets[OF p(1)] by auto
  then have "(\<lambda>c. [c]) ` set e \<subseteq> reachable_ids adjacency"
    by (auto simp: reachable_ids_def)
  then show ?thesis
    using assms Element by (auto simp: neighbors_of_def)
qed (use assms in \<open>auto simp: neighbors_of_def split: if_splits\<close>)

termination dfs
proof (relation "inv_image (less_than <*lex*> less_than)
     (\<lambda>x. case x of
        Inl (adjacency, nid, st) \<Rightarrow>
          (card (reachable_ids adjacency - insert nid (visited st)),
           Suc (length (case neighbors_of adjacency nid of Inr ns \<Rightarrow> ns | Inl e \<Rightarrow> [])))
      | Inr (adjacency, nid, ns, st) \<Rightarrow>
          (card ((reachable_ids adjacency \<union> set ns) - visited st), length ns))", goal_cases)
  case 1
  then show ?case by (simp add: wf_lex_prod)
next
  case (2 adjacency nid st ns)
  have "reachable_ids adjacency \<union> set ns = reachable_ids adjacency"
    using neighbors_of_reachable[of adjacency nid ns] 2 by auto
  then show ?case using 2 by (simp add: sum.case_eq_if)
next
  case (3 adjacency nid neighbor rest st)
  have "reachable_ids adjacency - insert neighbor (visited st)
          \<subset> (reachable_ids adjacency \<union> set (neighbor # rest)) - visited st"
    using 3 by auto
  then have "card (reachable_ids adjacency - insert neighbor (visited st))
          < card ((reachable_ids adjacency \<union> set (neighbor # rest)) - visited st)"
    by (intro psubset_card_mono) simp_all
  then show ?case by simp
next
  case (4 adjacency nid neighbor rest st x y st')
  have "visited st \<subseteq> visited st'"
    using dfs_visited_mono(1)[OF 4(5), of y st'] 4(2,3) by simp
  then have "(reachable_ids adjacency \<union> set rest) - visited st'
          \<subseteq> (reachable_ids adjacency \<union> set (neighbor # rest)) - visited st"
    by auto
  then have "card ((reachable_ids adjacency \<union> set rest) - visited st')
          \<le> card ((reachable_ids adjacency \<union> set (neighbor # rest)) - visited st)"
    by (intro card_mono) simp_all
  then show ?case by auto
next
  case (5 adjacency nid neighbor rest st)
  have "card ((reachable_ids adjacency \<union> set rest) - visited st)
          \<le> card ((reachable_ids adjacency \<union> set (neighbor # rest)) - visited st)"
    by (intro card_mono) auto
  then show ?case by auto
qed

declare dfs.simps [simp del] dfs_neighbors.simps [simp del]

section \<open>The cascade pass and its loop\<close>

lemma set_tree_simps [simp]:
  "trees (set_tree s ti t) = (trees s)[ti := t]"
  "allow_refunds (set_tree s ti t) = allow_refunds s"
  "cascade_refunds (set_tree s ti t) = cascade_refunds s"
  "mode (set_tree s ti t) = mode s"
  "modified_at (set_tree s ti t) = modified_at s"
  by (simp_all add: set_tree_def)

lemma set_tree_set_tree [simp]: "set_tree (set_tree s ti t) ti t' = set_tree s ti t'"
  by (simp add: set_tree_def)

lemma set_tree_same [simp]: "set_tree s ti (trees s ! ti) = s"
  by (simp add: set_tree_def)

lemma node_cascaded_skip:
  "stable_at tid ti st i \<Longrightarrow> node_cascaded tid ti i (st, ch) = (st, ch)"
  by (simp add: node_cascaded_def)

lemma node_cascaded_fire:
  "\<not> stable_at tid ti st i \<Longrightarrow>
     node_cascaded tid ti i (st, ch) = (set_tree st ti (zero_node (trees st ! ti) i), True)"
  by (simp add: node_cascaded_def)

lemma cascaded_refl [simp]: "cascaded t t"
  by (simp add: cascaded_def list_all2_refl)

lemma cascaded_trans:
  assumes "cascaded t t1" "cascaded t1 t2"
  shows "cascaded t t2"
proof -
  let ?R = "\<lambda>n n'. n' = n \<or> (0 < current_rank n \<and> n' = n\<lparr>current_rank := 0\<rparr>)"
  have step: "?R a c" if "?R a b" "?R b c" for a b c :: node
    using that by auto
  have "list_all2 ?R (nodes t) (nodes t2)"
    by (rule list_all2_trans[where ?P1.0 = ?R and ?P2.0 = ?R, OF step])
      (use assms in \<open>auto simp: cascaded_def\<close>)
  then show ?thesis using assms by (simp add: cascaded_def)
qed

lemma cascaded_zero_node:
  "i < length (nodes t) \<Longrightarrow> 0 < current_rank (nodes t ! i) \<Longrightarrow> cascaded t (zero_node t i)"
  unfolding cascaded_def zero_node_def
  by (auto simp: list_all2_conv_all_nth nth_list_update)

lemma cascaded_length: "cascaded t t' \<Longrightarrow> length (nodes t') = length (nodes t)"
  by (auto simp: cascaded_def dest: list_all2_lengthD)

lemma cascaded_total_le:
  "cascaded t t' \<Longrightarrow> total_allocated_rank t' \<le> total_allocated_rank t"
  unfolding cascaded_def total_allocated_rank_def
  by (auto simp: list_all2_conv_all_nth intro!: sum_list_mono2)

lemma total_zero_node:
  assumes "i < length (nodes t)" "0 < current_rank (nodes t ! i)"
  shows "total_allocated_rank (zero_node t i) < total_allocated_rank t"
proof -
  let ?f = "\<lambda>n. nat (current_rank n)"
  have "sum_list ((map ?f (nodes t))[i := 0]) = sum_list (map ?f (nodes t)) + 0 - map ?f (nodes t) ! i"
    using assms by (subst sum_list_update) auto
  moreover have "map ?f (nodes t) ! i > 0" using assms by simp
  moreover have "map ?f (nodes t) ! i \<le> sum_list (map ?f (nodes t))"
    using assms by (intro elem_le_sum_list) simp
  ultimately show ?thesis
    by (simp add: total_allocated_rank_def zero_node_def map_update)
qed

lemma cascaded_ids:
  "cascaded t t' \<Longrightarrow> map node_id (nodes t') = map node_id (nodes t)"
  unfolding cascaded_def list_all2_conv_all_nth
  by (intro nth_equalityI) auto

text \<open>The pass, as a fold over positions.\<close>

lemma zero_node_length [simp]: "length (nodes (zero_node t i)) = length (nodes t)"
  by (simp add: zero_node_def)

lemma not_stable_rank: "\<not> stable_at tid ti st i \<Longrightarrow> 0 < current_rank (nodes (trees st ! ti) ! i)"
  by (auto simp: stable_at_def split: if_splits)

lemma cascade_fold:
  assumes "ti < length (trees st)"
    and "\<forall>i\<in>set idxs. i < length (nodes (trees st ! ti))"
    and "fold (node_cascaded tid ti) idxs (st, ch) = (st', ch')"
  shows "(\<exists>t'. st' = set_tree st ti t' \<and> cascaded (trees st ! ti) t') \<and>
         (ch' \<longrightarrow> ch \<or> total_allocated_rank (trees st' ! ti) < total_allocated_rank (trees st ! ti)) \<and>
         (\<not> ch' \<longrightarrow> st' = st \<and> \<not> ch \<and> (\<forall>i\<in>set idxs. stable_at tid ti st i))"
  using assms
proof (induction idxs arbitrary: st ch)
  case Nil
  then show ?case by (auto intro!: exI[of _ "trees st ! ti"])
next
  case (Cons i idxs)
  let ?t = "trees st ! ti"
  show ?case
  proof (cases "stable_at tid ti st i")
    case True
    then have "fold (node_cascaded tid ti) idxs (st, ch) = (st', ch')"
      using Cons.prems(3) by (simp add: node_cascaded_skip)
    from Cons.IH[OF Cons.prems(1) _ this] Cons.prems(2) True
    show ?thesis by auto
  next
    case False
    let ?z = "zero_node ?t i"
    let ?st1 = "set_tree st ti ?z"
    have i: "i < length (nodes ?t)" and rk: "0 < current_rank (nodes ?t ! i)"
      using Cons.prems(2) not_stable_rank[OF False] by auto
    have t1: "trees ?st1 ! ti = ?z" using Cons.prems(1) by simp
    have f: "fold (node_cascaded tid ti) idxs (?st1, True) = (st', ch')"
      using Cons.prems(3) False by (simp add: node_cascaded_fire)
    have "ti < length (trees ?st1)" using Cons.prems(1) by simp
    moreover have "\<forall>j\<in>set idxs. j < length (nodes (trees ?st1 ! ti))"
      using Cons.prems(2) unfolding t1 by simp
    ultimately have ih:
      "(\<exists>t'. st' = set_tree ?st1 ti t' \<and> cascaded (trees ?st1 ! ti) t') \<and>
       (ch' \<longrightarrow> True \<or> total_allocated_rank (trees st' ! ti) < total_allocated_rank (trees ?st1 ! ti)) \<and>
       (\<not> ch' \<longrightarrow> st' = ?st1 \<and> \<not> True \<and> (\<forall>i\<in>set idxs. stable_at tid ti ?st1 i))"
      using f by (rule Cons.IH)
    then obtain t' where t': "st' = set_tree ?st1 ti t'" "cascaded ?z t'"
      unfolding t1 by blast
    have c: "cascaded ?t t'"
      using cascaded_trans[OF cascaded_zero_node[OF i rk] t'(2)] .
    have st': "st' = set_tree st ti t'" using t'(1) by simp
    have "trees st' ! ti = t'" using st' Cons.prems(1) by simp
    then have lt: "total_allocated_rank (trees st' ! ti) < total_allocated_rank ?t"
      using cascaded_total_le[OF t'(2)] total_zero_node[OF i rk] by simp
    from ih have "ch'" by auto
    with st' c lt show ?thesis by auto
  qed
qed

lemma pass_cascaded_props:
  assumes "ti < length (trees s)" and "pass_cascaded tid ti s = (s', ch)"
  shows "\<exists>t'. s' = set_tree s ti t' \<and> cascaded (trees s ! ti) t'"
    and "ch \<Longrightarrow> total_allocated_rank (trees s' ! ti) < total_allocated_rank (trees s ! ti)"
    and "\<not> ch \<Longrightarrow> s' = s"
    and "\<not> ch \<Longrightarrow> i < length (nodes (trees s ! ti)) \<Longrightarrow> stable_at tid ti s i"
  using cascade_fold[OF assms(1) _ assms(2)[unfolded pass_cascaded_def]]
  by auto

lemma cascade_fold_stable:
  "\<forall>i\<in>set idxs. stable_at tid ti st i \<Longrightarrow> fold (node_cascaded tid ti) idxs (st, ch) = (st, ch)"
  by (induction idxs) (auto simp: node_cascaded_skip)

lemma pass_cascaded_stable:
  "\<forall>i<length (nodes (trees s ! ti)). stable_at tid ti s i \<Longrightarrow> pass_cascaded tid ti s = (s, False)"
  unfolding pass_cascaded_def by (rule cascade_fold_stable) simp

termination all_cascaded
proof (relation "measure (\<lambda>(tid, ti, s). total_allocated_rank (trees s ! ti))")
  show "wf (measure (\<lambda>(tid, ti, s). total_allocated_rank (trees s ! ti)))" by simp
next
  fix tid ti s s' changed
  assume "ti < length (trees s)" "(s', changed) = pass_cascaded tid ti s" "changed"
  then show "((tid, ti, s'), (tid, ti, s)) \<in> measure (\<lambda>(tid, ti, s). total_allocated_rank (trees s ! ti))"
    using pass_cascaded_props(2)[of ti s tid s' changed] by simp
qed

declare all_cascaded.simps [simp del]

text \<open>With no negative rank, the measure is the sum of the ranks.\<close>

lemma total_allocated_rank_sum:
  "ranks_nonneg t \<Longrightarrow> int (total_allocated_rank t) = (\<Sum>n\<leftarrow>nodes t. current_rank n)"
proof -
  have "list_all (\<lambda>n. 0 \<le> current_rank n) ns \<Longrightarrow>
        int (\<Sum>n\<leftarrow>ns. nat (current_rank n)) = (\<Sum>n\<leftarrow>ns. current_rank n)" for ns :: "node list"
    by (induction ns) auto
  then show "ranks_nonneg t \<Longrightarrow> ?thesis"
    by (simp add: ranks_nonneg_def total_allocated_rank_def)
qed

section \<open>The loops over the ranks\<close>

text \<open>A loop whose bound is at most \<open>2 ^ 53\<close> ends, with the result of the fold.\<close>

lemma for_each_rank_returns:
  assumes "0 \<le> i" "rank \<le> 2 ^ 53"
  shows "for_each_rank body rank i acc
           = Some (fold (\<lambda>j. body (int j)) [nat i..<nat rank] acc)"
  using assms
proof (induction "nat (rank - i)" arbitrary: i acc)
  case 0
  then have "\<not> i < rank" by simp
  then show ?case by (simp add: for_each_rank.simps[of body rank i acc])
next
  case (Suc k)
  then have lt: "i < rank" by linarith
  then have "\<bar>i + 1\<bar> \<le> 2 ^ 53" using Suc.prems by simp
  then have rd: "round_double (i + 1) = i + 1" by (rule round_double_exact)
  have k: "k = nat (rank - (i + 1))" using Suc.hyps(2) by simp
  have ih: "for_each_rank body rank (i + 1) (body i acc)
           = Some (fold (\<lambda>j. body (int j)) [nat (i + 1)..<nat rank] (body i acc))"
    using Suc.hyps(1)[OF k] Suc.prems by simp
  have "[nat i..<nat rank] = nat i # [nat (i + 1)..<nat rank]"
    using lt Suc.prems(1) by (simp add: upt_conv_Cons nat_add_distrib)
  then show ?case
    using lt rd ih Suc.prems(1) by (simp add: for_each_rank.simps[of body rank i acc])
qed

text \<open>A loop whose bound is above \<open>2 ^ 53\<close> does not end: its counter stops there.\<close>

lemma for_each_rank_stuck:
  assumes "for_each_rank body rank i acc = Some y"
  shows "\<not> (0 \<le> i \<and> i \<le> 2 ^ 53 \<and> 2 ^ 53 < rank)"
proof (rule for_each_rank.raw_induct[where
      P = "\<lambda>body rank i acc y. \<not> (0 \<le> i \<and> i \<le> 2 ^ 53 \<and> 2 ^ 53 < rank)", OF _ assms],
    goal_cases)
  case (1 loop body rank i acc y)
  show ?case
  proof
    assume a: "0 \<le> i \<and> i \<le> 2 ^ 53 \<and> 2 ^ 53 < rank"
    then have "i < rank" by simp
    then have r: "loop body rank (round_double (i + 1)) (body i acc) = Some y"
      using 1(2) by simp
    have "0 \<le> round_double (i + 1) \<and> round_double (i + 1) \<le> 2 ^ 53"
    proof (cases "i = 2 ^ 53")
      case True
      then show ?thesis by (simp only: round_double_tie) simp
    next
      case False
      then have "\<bar>i + 1\<bar> \<le> 2 ^ 53" using a by simp
      from round_double_exact[OF this] a False show ?thesis by simp
    qed
    with 1(1)[OF r] a show False by simp
  qed
qed

lemma for_each_rank_fold:
  "for_each_rank body rank 0 acc
     = (if rank \<le> 2 ^ 53 then Some (fold (\<lambda>j. body (int j)) [0..<nat rank] acc) else None)"
proof (cases "rank \<le> 2 ^ 53")
  case True
  then show ?thesis using for_each_rank_returns[of 0 rank body acc] by simp
next
  case False
  have "for_each_rank body rank 0 acc = None"
  proof (cases "for_each_rank body rank 0 acc")
    case (Some y)
    from for_each_rank_stuck[OF this] False show ?thesis by simp
  qed simp
  then show ?thesis using False by simp
qed

lemma refund_all_ranks_result:
  "refund_all_ranks n sp
     = (if current_rank n \<le> 2 ^ 53 then Some (refunded_ranks n sp) else None)"
  by (simp add: refund_all_ranks_def refunded_ranks_def for_each_rank_fold)

lemma cascade_node_result:
  "cascade_node tid ti i (st, ch)
     = (if stable_at tid ti st i \<or> current_rank (nodes (trees st ! ti) ! i) \<le> 2 ^ 53
        then Some (node_cascaded tid ti i (st, ch)) else None)"
  by (auto simp: cascade_node_def node_cascaded_def stable_at_def Let_def
      refund_all_ranks_result set_tree_def zero_node_def)

text \<open>The ranks of a tree that the loops can count.\<close>

lemma ranks_bounded_nth:
  "ranks_bounded t \<Longrightarrow> i < length (nodes t) \<Longrightarrow> current_rank (nodes t ! i) \<le> 2 ^ 53"
  by (simp add: ranks_bounded_def list_all_length)

lemma cascaded_ranks_bounded: "cascaded t t' \<Longrightarrow> ranks_bounded t \<Longrightarrow> ranks_bounded t'"
  unfolding cascaded_def ranks_bounded_def list_all_length list_all2_conv_all_nth
  by (auto; (metis node.select_convs(3) node.surjective node.update_convs(3) zero_le_numeral zero_le_power))

lemma bind_fold_None [simp]: "fold (\<lambda>i acc. Option.bind acc (f i)) idxs None = None"
  by (induction idxs) auto

lemma cascade_fold_result:
  "fold (\<lambda>i acc. Option.bind acc (cascade_node tid ti i)) idxs (Some (st, ch)) = Some r \<Longrightarrow>
   r = fold (node_cascaded tid ti) idxs (st, ch)"
proof (induction idxs arbitrary: st ch)
  case Nil
  then show ?case by simp
next
  case (Cons i idxs)
  show ?case
  proof (cases "cascade_node tid ti i (st, ch)")
    case None
    then show ?thesis using Cons.prems by simp
  next
    case (Some a)
    then have a: "a = node_cascaded tid ti i (st, ch)"
      by (simp add: cascade_node_result split: if_splits)
    obtain st1 ch1 where p: "a = (st1, ch1)" by (cases a)
    from Cons.IH[of st1 ch1] Cons.prems Some p a show ?thesis by simp
  qed
qed

lemma cascade_fold_returns:
  assumes "ti < length (trees st)" "ranks_bounded (trees st ! ti)"
    and "\<forall>i\<in>set idxs. i < length (nodes (trees st ! ti))"
  shows "fold (\<lambda>i acc. Option.bind acc (cascade_node tid ti i)) idxs (Some (st, ch))
           = Some (fold (node_cascaded tid ti) idxs (st, ch))"
  using assms
proof (induction idxs arbitrary: st ch)
  case Nil
  then show ?case by simp
next
  case (Cons i idxs)
  have i: "i < length (nodes (trees st ! ti))" using Cons.prems(3) by simp
  have c: "cascade_node tid ti i (st, ch) = Some (node_cascaded tid ti i (st, ch))"
    using ranks_bounded_nth[OF Cons.prems(2) i] by (simp add: cascade_node_result)
  obtain st1 ch1 where p: "node_cascaded tid ti i (st, ch) = (st1, ch1)"
    by (cases "node_cascaded tid ti i (st, ch)")
  from cascade_fold[OF Cons.prems(1), of "[i]" tid ch st1 ch1] i p
  obtain t1 where t1: "st1 = set_tree st ti t1" "cascaded (trees st ! ti) t1" by auto
  have tr: "trees st1 ! ti = t1" using t1(1) Cons.prems(1) by simp
  have "ti < length (trees st1)" using t1(1) Cons.prems(1) by simp
  moreover have "ranks_bounded (trees st1 ! ti)"
    unfolding tr using cascaded_ranks_bounded[OF t1(2) Cons.prems(2)] .
  moreover have "\<forall>j\<in>set idxs. j < length (nodes (trees st1 ! ti))"
    unfolding tr using Cons.prems(3) cascaded_length[OF t1(2)] by simp
  ultimately show ?case using Cons.IH[of st1 ch1] c p by simp
qed

lemma cascade_pass_result:
  "cascade_pass tid ti s = Some r \<Longrightarrow> r = pass_cascaded tid ti s"
  unfolding cascade_pass_def pass_cascaded_def by (rule cascade_fold_result)

lemma cascade_pass_returns:
  "ti < length (trees s) \<Longrightarrow> ranks_bounded (trees s ! ti) \<Longrightarrow>
   cascade_pass tid ti s = Some (pass_cascaded tid ti s)"
  unfolding cascade_pass_def pass_cascaded_def by (rule cascade_fold_returns) simp_all

termination cascade_while
proof (relation "measure (\<lambda>(tid, ti, s). total_allocated_rank (trees s ! ti))", goal_cases)
  case 1
  show ?case by simp
next
  case (2 tid ti s p s' changed)
  have "pass_cascaded tid ti s = (s', changed)"
    using cascade_pass_result[of tid ti s p] 2 by simp
  from pass_cascaded_props(2)[OF 2(1) this] 2 show ?case by simp
qed

declare cascade_while.simps [simp del]

lemma cascade_while_result:
  "cascade_while tid ti s = Some r \<Longrightarrow> r = all_cascaded tid ti s"
proof (induction tid ti s rule: cascade_while.induct)
  case (1 tid ti s)
  show ?case
  proof (cases "ti < length (trees s)")
    case False
    then have "all_cascaded tid ti s = s" "cascade_while tid ti s = Some s"
      by (simp_all add: cascade_while.simps[of tid ti s] all_cascaded.simps[of tid ti s])
    then show ?thesis using "1.prems" by simp
  next
    case True
    show ?thesis
    proof (cases "cascade_pass tid ti s")
      case None
      then show ?thesis using "1.prems" True by (simp add: cascade_while.simps[of tid ti s])
    next
      case (Some p)
      obtain s' ch where p: "p = (s', ch)" by (cases p)
      have e: "pass_cascaded tid ti s = (s', ch)"
        using cascade_pass_result[OF Some] p by simp
      show ?thesis
      proof (cases ch)
        case False
        then show ?thesis
          using "1.prems" True Some p e
          by (simp add: cascade_while.simps[of tid ti s] all_cascaded.simps[of tid ti s])
      next
        case ch: True
        have "cascade_while tid ti s' = Some r"
          using "1.prems" True Some p ch by (simp add: cascade_while.simps[of tid ti s])
        from "1.IH"[OF True Some p[symmetric] ch this] show ?thesis
          using True e ch by (simp add: all_cascaded.simps[of tid ti s])
      qed
    qed
  qed
qed

lemma cascade_while_returns:
  "ti < length (trees s) \<Longrightarrow> ranks_bounded (trees s ! ti) \<Longrightarrow>
   cascade_while tid ti s = Some (all_cascaded tid ti s)"
proof (induction tid ti s rule: all_cascaded.induct)
  case (1 tid ti s)
  obtain s' ch where e: "pass_cascaded tid ti s = (s', ch)" by (cases "pass_cascaded tid ti s")
  have c: "cascade_pass tid ti s = Some (s', ch)"
    using cascade_pass_returns[OF "1.prems"] e by simp
  show ?case
  proof (cases ch)
    case False
    then show ?thesis
      using "1.prems"(1) c e
      by (simp add: cascade_while.simps[of tid ti s] all_cascaded.simps[of tid ti s])
  next
    case True
    from pass_cascaded_props(1)[OF "1.prems"(1) e]
    obtain t' where t': "s' = set_tree s ti t'" "cascaded (trees s ! ti) t'" by blast
    have tr: "trees s' ! ti = t'" using t'(1) "1.prems"(1) by simp
    have "ti < length (trees s')" using t'(1) "1.prems"(1) by simp
    moreover have "ranks_bounded (trees s' ! ti)"
      unfolding tr using cascaded_ranks_bounded[OF t'(2) "1.prems"(2)] .
    ultimately have "cascade_while tid ti s' = Some (all_cascaded tid ti s')"
      using "1.IH"[OF "1.prems"(1) e[symmetric] True] by simp
    then show ?thesis
      using "1.prems"(1) c e True
      by (simp add: cascade_while.simps[of tid ti s] all_cascaded.simps[of tid ti s])
  qed
qed

lemma apply_cascade_refunds_result:
  "apply_cascade_refunds s tid = Some r \<Longrightarrow>
   r = (case get_tree_index s tid of None \<Rightarrow> s | Some ti \<Rightarrow> all_cascaded tid ti s)"
  by (auto simp: apply_cascade_refunds_def dest: cascade_while_result split: option.splits)

lemma apply_cascade_refunds_returns:
  assumes "\<And>ti. get_tree_index s tid = Some ti \<Longrightarrow> ranks_bounded (trees s ! ti)"
  shows "apply_cascade_refunds s tid
           = Some (case get_tree_index s tid of None \<Rightarrow> s | Some ti \<Rightarrow> all_cascaded tid ti s)"
proof (cases "get_tree_index s tid")
  case None
  then show ?thesis by (simp add: apply_cascade_refunds_def)
next
  case (Some ti)
  from cascade_while_returns[OF _ assms[OF Some]] get_tree_index_Some[OF Some] Some
  show ?thesis by (simp add: apply_cascade_refunds_def)
qed

lemma bind_fold_all:
  assumes "\<And>n acc. g n acc = (if P n then Some (h n acc) else None)"
  shows "fold (\<lambda>n total. Option.bind total (g n)) ns (Some k)
           = (if list_all P ns then Some (fold h ns k) else None)"
proof (induction ns arbitrary: k)
  case Nil
  then show ?case by simp
next
  case (Cons n ns)
  show ?case
  proof (cases "P n")
    case True
    then show ?thesis using Cons.IH[of "h n k"] by (simp add: assms)
  next
    case False
    then show ?thesis by (simp add: assms)
  qed
qed

lemma calculate_spent_points_result:
  "calculate_spent_points t = (if ranks_bounded t then Some (recalculated t) else None)"
  unfolding calculate_spent_points_def recalculated_def ranks_bounded_def
  by (rule bind_fold_all) (simp add: for_each_rank_fold)

section \<open>Costs in integers\<close>

lemma js_index_clamped:
  "xs \<noteq> [] \<Longrightarrow> js_index xs (min (int i) (int (length xs) - 1)) = Num (xs ! min i (length xs - 1))"
proof -
  assume "xs \<noteq> []"
  then have len: "0 < length xs" by simp
  have m: "min (int i) (int (length xs) - 1) = int (min i (length xs - 1))"
    using len by arith
  have lt: "min i (length xs - 1) < length xs" using len by arith
  show ?thesis
    unfolding m js_index_def using lt by simp
qed

lemma sum_list_nonneg_int: "\<forall>i\<in>set xs. 0 \<le> f i \<Longrightarrow> (0::int) \<le> (\<Sum>i\<leftarrow>xs. f i)"
  by (induction xs) auto

lemma fold_js_sub_exact:
  assumes "\<forall>i\<in>set xs. 0 \<le> f i" "k \<le> 2 ^ 53" "- (2 ^ 53) \<le> k - (\<Sum>i\<leftarrow>xs. f i)"
  shows "fold (\<lambda>i acc. js_sub acc (Num (f i))) xs (Num k) = Num (k - (\<Sum>i\<leftarrow>xs. f i))"
  using assms
proof (induction xs arbitrary: k)
  case Nil
  then show ?case by simp
next
  case (Cons x xs)
  have r: "0 \<le> (\<Sum>i\<leftarrow>xs. f i)" using Cons.prems(1) by (intro sum_list_nonneg_int) simp
  have x: "0 \<le> f x" using Cons.prems(1) by simp
  have "\<bar>k - f x\<bar> \<le> 2 ^ 53" using r x Cons.prems(2,3) by simp
  then have s: "js_sub (Num k) (Num (f x)) = Num (k - f x)" by (rule js_sub_exact)
  have "fold (\<lambda>i acc. js_sub acc (Num (f i))) xs (Num (k - f x))
          = Num (k - f x - (\<Sum>i\<leftarrow>xs. f i))"
    using Cons.prems x by (intro Cons.IH) simp_all
  then show ?case using s by simp
qed


lemma clamped_cost_nonneg:
  assumes "xs \<noteq> []" "list_all (\<lambda>c. 0 \<le> c) xs"
  shows "(0::int) \<le> xs ! min i (length xs - 1)"
proof -
  have "min i (length xs - 1) < length xs" using assms(1) by (cases xs) auto
  then show ?thesis using assms(2) by (simp add: list_all_length del: One_nat_def)
qed

lemma accumulated_cost_nonneg:
  "cost_per_rank n \<noteq> [] \<Longrightarrow> list_all (\<lambda>c. 0 \<le> c) (cost_per_rank n) \<Longrightarrow>
   0 \<le> accumulated_cost n"
  unfolding accumulated_cost_def
  by (intro sum_list_nonneg_int) (simp add: clamped_cost_nonneg del: One_nat_def)

lemma refunded_ranks_Num:
  assumes "cost_per_rank n \<noteq> []" "list_all (\<lambda>c. 0 \<le> c) (cost_per_rank n)"
    "k \<le> 2 ^ 53" "- (2 ^ 53) \<le> k - accumulated_cost n"
  shows "refunded_ranks n (Num k) = Num (k - accumulated_cost n)"
  unfolding refunded_ranks_def accumulated_cost_def js_index_clamped[OF assms(1)]
  by (rule fold_js_sub_exact)
    (use assms in \<open>simp_all add: clamped_cost_nonneg accumulated_cost_def del: One_nat_def\<close>)


lemma recomputed_cost_nonneg:
  "costs_nonempty t \<Longrightarrow> costs_nonneg t \<Longrightarrow> 0 \<le> recomputed_cost t"
  unfolding recomputed_cost_def costs_nonempty_def costs_nonneg_def
  by (intro sum_list_nonneg_int) (simp add: list_all_iff accumulated_cost_nonneg)


lemma sum_list_map_update:
  fixes f :: "'a \<Rightarrow> int"
  shows "i < length xs \<Longrightarrow> sum_list (map f (xs[i := y])) = sum_list (map f xs) - f (xs ! i) + f y"
  by (induction xs arbitrary: i) (auto split: nat.splits)

lemma accumulated_cost_zero [simp]: "accumulated_cost (n\<lparr>current_rank := 0\<rparr>) = 0"
  by (simp add: accumulated_cost_def)

lemma recomputed_zero_node:
  "i < length (nodes t) \<Longrightarrow>
   recomputed_cost (zero_node t i) = recomputed_cost t - accumulated_cost (nodes t ! i)"
  by (simp add: recomputed_cost_def zero_node_def sum_list_map_update)

lemma cascaded_costs_nonempty: "cascaded t t' \<Longrightarrow> costs_nonempty t \<Longrightarrow> costs_nonempty t'"
  unfolding cascaded_def costs_nonempty_def list_all_length list_all2_conv_all_nth
  by (metis node.select_convs(4) node.surjective node.update_convs(3))

lemma cascaded_costs_nonneg: "cascaded t t' \<Longrightarrow> costs_nonneg t \<Longrightarrow> costs_nonneg t'"
  unfolding cascaded_def costs_nonneg_def list_all_length list_all2_conv_all_nth
  by (metis node.select_convs(4) node.surjective node.update_convs(3))

lemma costs_nonempty_nth:
  "costs_nonempty t \<Longrightarrow> i < length (nodes t) \<Longrightarrow> cost_per_rank (nodes t ! i) \<noteq> []"
  by (simp add: costs_nonempty_def list_all_length)

lemma costs_nonneg_nth:
  "costs_nonneg t \<Longrightarrow> i < length (nodes t) \<Longrightarrow> list_all (\<lambda>c. 0 \<le> c) (cost_per_rank (nodes t ! i))"
  by (simp add: costs_nonneg_def list_all_length)

text \<open>The cost held by one node is at most the cost held by the tree.\<close>

lemma accumulated_le_recomputed:
  assumes "costs_nonempty t" "costs_nonneg t" "i < length (nodes t)"
  shows "accumulated_cost (nodes t ! i) \<le> recomputed_cost t"
proof -
  have "0 \<le> recomputed_cost (zero_node t i)"
  proof (rule recomputed_cost_nonneg)
    show "costs_nonempty (zero_node t i)"
      using assms(1) costs_nonempty_nth[OF assms(1,3)]
      unfolding costs_nonempty_def zero_node_def by (auto intro!: list_all_update)
    show "costs_nonneg (zero_node t i)"
      using assms(2) costs_nonneg_nth[OF assms(2,3)]
      unfolding costs_nonneg_def zero_node_def by (auto intro!: list_all_update)
  qed
  then show ?thesis using recomputed_zero_node[OF assms(3)] by simp
qed

text \<open>Resetting one node keeps an exact ledger exact.\<close>

lemma exact_ledger_zero_node:
  assumes "exact_ledger t k" "i < length (nodes t)" "0 < current_rank (nodes t ! i)"
  shows "exact_ledger (zero_node t i) (k - accumulated_cost (nodes t ! i))"
proof -
  let ?n = "nodes t ! i"
  have cn: "costs_nonempty t" and cg: "costs_nonneg t" and sp: "spent (point_pool t) = Num k"
    and k: "k \<le> 2 ^ 53" "- (2 ^ 53) \<le> k - recomputed_cost t"
    using assms(1) by (simp_all add: exact_ledger_def)
  have a0: "0 \<le> accumulated_cost ?n"
    using accumulated_cost_nonneg[OF costs_nonempty_nth[OF cn assms(2)] costs_nonneg_nth[OF cg assms(2)]] .
  have a1: "accumulated_cost ?n \<le> recomputed_cost t"
    using accumulated_le_recomputed[OF cn cg assms(2)] .
  have "refunded_ranks ?n (Num k) = Num (k - accumulated_cost ?n)"
    by (rule refunded_ranks_Num[OF costs_nonempty_nth[OF cn assms(2)] costs_nonneg_nth[OF cg assms(2)]])
      (use k a1 in simp_all)
  then have s: "spent (point_pool (zero_node t i)) = Num (k - accumulated_cost ?n)"
    using sp by (simp add: zero_node_def)
  have c: "cascaded t (zero_node t i)" using cascaded_zero_node[OF assms(2,3)] .
  show ?thesis
    unfolding exact_ledger_def
    using cascaded_costs_nonempty[OF c cn] cascaded_costs_nonneg[OF c cg] s k a0
      recomputed_zero_node[OF assms(2)]
    by simp
qed

lemma cascade_fold_spent:
  assumes "ti < length (trees st)"
    and "\<forall>i\<in>set idxs. i < length (nodes (trees st ! ti))"
    and "fold (node_cascaded tid ti) idxs (st, ch) = (st', ch')"
    and "exact_ledger (trees st ! ti) k"
  shows "exact_ledger (trees st' ! ti)
           (k - recomputed_cost (trees st ! ti) + recomputed_cost (trees st' ! ti))"
  using assms
proof (induction idxs arbitrary: st ch k)
  case Nil
  then show ?case by simp
next
  case (Cons i idxs)
  let ?t = "trees st ! ti"
  show ?case
  proof (cases "stable_at tid ti st i")
    case True
    then have "fold (node_cascaded tid ti) idxs (st, ch) = (st', ch')"
      using Cons.prems(3) by (simp add: node_cascaded_skip)
    from Cons.IH[OF Cons.prems(1) _ this Cons.prems(4)] Cons.prems(2)
    show ?thesis by simp
  next
    case False
    let ?z = "zero_node ?t i"
    let ?st1 = "set_tree st ti ?z"
    have i: "i < length (nodes ?t)" and rk: "0 < current_rank (nodes ?t ! i)"
      using Cons.prems(2) not_stable_rank[OF False] by auto
    have t1: "trees ?st1 ! ti = ?z" using Cons.prems(1) by simp
    have f: "fold (node_cascaded tid ti) idxs (?st1, True) = (st', ch')"
      using Cons.prems(3) False by (simp add: node_cascaded_fire)
    have a: "ti < length (trees ?st1)" using Cons.prems(1) by simp
    have b: "\<forall>j\<in>set idxs. j < length (nodes (trees ?st1 ! ti))"
      using Cons.prems(2) unfolding t1 by simp
    have d: "exact_ledger (trees ?st1 ! ti) (k - accumulated_cost (nodes ?t ! i))"
      unfolding t1 using exact_ledger_zero_node[OF Cons.prems(4) i rk] .
    from Cons.IH[OF a b f d] show ?thesis
      unfolding t1 by (simp add: recomputed_zero_node[OF i])
  qed
qed

lemma all_cascaded_props:
  assumes "ti < length (trees s)"
  shows "\<exists>t'. all_cascaded tid ti s = set_tree s ti t' \<and> cascaded (trees s ! ti) t' \<and>
           (\<forall>i<length (nodes t'). stable_at tid ti (set_tree s ti t') i) \<and>
           (\<forall>k. exact_ledger (trees s ! ti) k \<longrightarrow>
              exact_ledger t' (k - recomputed_cost (trees s ! ti) + recomputed_cost t'))"
  using assms
proof (induction tid ti s rule: all_cascaded.induct)
  case (1 tid ti s)
  let ?t = "trees s ! ti"
  obtain s1 ch where pass: "pass_cascaded tid ti s = (s1, ch)" by (cases "pass_cascaded tid ti s")
  note pp = pass_cascaded_props[OF "1.prems" pass]
  show ?case
  proof (cases ch)
    case False
    then have "all_cascaded tid ti s = s"
      using "1.prems" pass pp(3) by (simp add: all_cascaded.simps[of tid ti s])
    moreover have "\<forall>i<length (nodes ?t). stable_at tid ti s i"
      using pp(4) False by simp
    ultimately show ?thesis
      by (intro exI[of _ ?t]) simp
  next
    case True
    from pp(1) obtain t1 where t1: "s1 = set_tree s ti t1" "cascaded ?t t1" by blast
    have len1: "ti < length (trees s1)" using t1(1) "1.prems" by simp
    have s1t: "trees s1 ! ti = t1" using t1(1) "1.prems" by simp
    from "1.IH"[OF "1.prems" pass[symmetric] True len1]
    obtain t' where t': "all_cascaded tid ti s1 = set_tree s1 ti t'" "cascaded t1 t'"
        "\<forall>i<length (nodes t'). stable_at tid ti (set_tree s1 ti t') i"
        "\<forall>k. exact_ledger t1 k \<longrightarrow>
              exact_ledger t' (k - recomputed_cost t1 + recomputed_cost t')"
      unfolding s1t by blast
    have w: "all_cascaded tid ti s = all_cascaded tid ti s1"
      using "1.prems" pass True by (simp add: all_cascaded.simps[of tid ti s])
    have e: "set_tree s1 ti t' = set_tree s ti t'" using t1(1) by simp
    have sp: "exact_ledger t' (k - recomputed_cost ?t + recomputed_cost t')"
      if "exact_ledger ?t k" for k
    proof -
      have "exact_ledger t1 (k - recomputed_cost ?t + recomputed_cost t1)"
        using cascade_fold_spent[OF "1.prems" _ pass[unfolded pass_cascaded_def] that] s1t by simp
      with t'(4) show ?thesis by fastforce
    qed
    show ?thesis
      using w t'(1,3) e cascaded_trans[OF t1(2) t'(2)] sp
      by (intro exI[of _ t']) simp
  qed
qed

lemma upt_nat_Suc: "0 \<le> r \<Longrightarrow> [0..<nat (r + 1)] = [0..<nat r] @ [nat r]"
  by (simp add: nat_add_distrib)


lemma accumulated_cost_dec:
  assumes "0 < current_rank n"
  shows "accumulated_cost (n\<lparr>current_rank := current_rank n - 1\<rparr>)
     = accumulated_cost n - refund_amount n"
proof -
  have "[0..<nat (current_rank n)] = [0..<nat (current_rank n - 1)] @ [nat (current_rank n - 1)]"
    using upt_nat_Suc[of "current_rank n - 1"] assms by simp
  then show ?thesis by (simp add: accumulated_cost_def refund_amount_def)
qed

lemma recomputed_cost_update:
  "ni < length (nodes t) \<Longrightarrow> nodes t' = (nodes t)[ni := n'] \<Longrightarrow>
   recomputed_cost t' = recomputed_cost t - accumulated_cost (nodes t ! ni) + accumulated_cost n'"
  by (simp add: recomputed_cost_def sum_list_map_update)

section \<open>Positions survive a cascade\<close>

lemma findIndex_update:
  "findIndex P xs = Some i \<Longrightarrow> P y \<Longrightarrow> findIndex P (xs[i := y]) = Some i"
  by (induction xs arbitrary: i) (auto split: if_splits nat.splits)

lemma get_tree_index_set_tree:
  "get_tree_index s tid = Some ti \<Longrightarrow> tree_id t' = tid \<Longrightarrow>
   get_tree_index (set_tree s ti t') tid = Some ti"
  by (simp add: get_tree_index_def findIndex_update)

lemma cascaded_tree_id: "cascaded t t' \<Longrightarrow> tree_id t' = tree_id t"
  by (simp add: cascaded_def)

section \<open>Prerequisite evaluation\<close>

lemma fold_rank_total:
  assumes "\<bar>a\<bar> + (\<Sum>conn\<leftarrow>xs. case g conn of None \<Rightarrow> 0 | Some (n::node) \<Rightarrow> \<bar>current_rank n\<bar>) \<le> 2 ^ 53"
  shows "fold (\<lambda>conn acc. case g conn of None \<Rightarrow> acc
                           | Some n \<Rightarrow> js_add acc (Num (current_rank n))) xs (Num a)
   = Num (a + (\<Sum>conn\<leftarrow>xs. case g conn of None \<Rightarrow> 0 | Some n \<Rightarrow> current_rank n))"
  using assms
proof (induction xs arbitrary: a)
  case Nil
  then show ?case by simp
next
  case (Cons x xs)
  let ?m = "\<Sum>conn\<leftarrow>xs. case g conn of None \<Rightarrow> 0 | Some n \<Rightarrow> \<bar>current_rank n\<bar>"
  have m: "0 \<le> ?m" by (intro sum_list_nonneg_int) (auto split: option.splits)
  show ?case
  proof (cases "g x")
    case None
    then show ?thesis using Cons.IH[of a] Cons.prems by simp
  next
    case (Some n)
    have b: "\<bar>a + current_rank n\<bar> + ?m \<le> 2 ^ 53" using Cons.prems Some by simp
    then have "\<bar>a + current_rank n\<bar> \<le> 2 ^ 53" using m by linarith
    then have "js_add (Num a) (Num (current_rank n)) = Num (a + current_rank n)"
      by (rule js_add_exact)
    then show ?thesis using Cons.IH[OF b] Some by (simp add: add.assoc)
  qed
qed

lemma source_rank_total_exact:
  "source_rank_magnitude s tid conns \<le> 2 ^ 53 \<Longrightarrow>
   source_rank_total s tid conns = Num (source_rank_sum s tid conns)"
  unfolding source_rank_total_def source_rank_sum_def source_rank_magnitude_def
  using fold_rank_total[of 0 "\<lambda>conn. find_node s tid (from_node_id conn)" conns] by simp

lemma check_prerequisites_root:
  "find_tree s tid = Some tree \<Longrightarrow> incoming_connections tree nid = [] \<Longrightarrow>
   check_prerequisites s tid nid"
  by (simp add: check_prerequisites.simps[of s tid nid] incoming_connections_def)

lemma check_prerequisites_total:
  assumes "find_tree s tid = Some tree" "incoming_connections tree nid \<noteq> []"
    "find_node s tid nid = Some node" "prerequisite_logic node = ''SUM''"
  shows "check_prerequisites s tid nid \<longleftrightarrow>
         js_ge (source_rank_total s tid (incoming_connections tree nid))
           (Num (if prerequisite_threshold node = 0 then 1 else prerequisite_threshold node))"
  using assms
  by (simp add: check_prerequisites.simps[of s tid nid] incoming_connections_def
      source_rank_total_def Let_def)

lemma check_prerequisites_sum:
  assumes "find_tree s tid = Some tree" "incoming_connections tree nid \<noteq> []"
    "find_node s tid nid = Some node" "prerequisite_logic node = ''SUM''"
    "source_rank_magnitude s tid (incoming_connections tree nid) \<le> 2 ^ 53"
  shows "check_prerequisites s tid nid \<longleftrightarrow>
         (if prerequisite_threshold node = 0 then 1 else prerequisite_threshold node)
           \<le> source_rank_sum s tid (incoming_connections tree nid)"
  unfolding check_prerequisites_total[OF assms(1-4)] source_rank_total_exact[OF assms(5)]
  by simp

lemma find_map_option:
  "(\<And>x. P (g x) = P x) \<Longrightarrow> find P (map g xs) = map_option g (find P xs)"
  by (induction xs) auto

lemma find_tree_rerank:
  "find_tree (set_required_ranks f s) tid = map_option (rerank_tree f) (find_tree s tid)"
  unfolding find_tree_def set_required_ranks_def
  by (simp add: find_map_option rerank_tree_def)

lemma find_node_rerank: "find_node (set_required_ranks f s) tid nid = find_node s tid nid"
  by (cases "find_tree s tid") (simp_all add: find_node_def find_tree_rerank rerank_tree_def)

lemma incoming_rerank:
  "incoming_connections (rerank_tree f t) nid
     = map (\<lambda>c. c\<lparr>required_rank := f c\<rparr>) (incoming_connections t nid)"
  by (simp add: incoming_connections_def rerank_tree_def filter_map comp_def)

lemma source_rank_sum_rerank:
  "source_rank_sum (set_required_ranks f s) tid (map (\<lambda>c. c\<lparr>required_rank := f c\<rparr>) cs)
     = source_rank_sum s tid cs"
  by (simp add: source_rank_sum_def find_node_rerank comp_def)

lemma source_rank_total_rerank:
  "source_rank_total (set_required_ranks f s) tid (map (\<lambda>c. c\<lparr>required_rank := f c\<rparr>) cs)
     = source_rank_total s tid cs"
  by (simp add: source_rank_total_def find_node_rerank fold_map comp_def)

text \<open>A logic that is none of the three, and not empty, is read as no requirement at all.\<close>

lemma check_prerequisites_unknown_logic:
  assumes "find_tree s tid = Some tree" "find_node s tid nid = Some node"
    "prerequisite_logic node \<notin> {[], ''AND'', ''OR'', ''SUM''}"
  shows "check_prerequisites s tid nid"
  using assms by (simp add: check_prerequisites.simps[of s tid nid] Let_def)

section \<open>One refund, then the cascade\<close>

lemma clone_tree_Num: "spent (point_pool t) = Num k \<Longrightarrow> clone_tree t = t"
  by (simp add: clone_tree_def)

lemma js_index_refund:
  assumes "xs \<noteq> []" "0 < r"
  shows "js_index xs (min (r - 1) (int (length xs) - 1)) = Num (xs ! min (nat (r - 1)) (length xs - 1))"
proof -
  have "r - 1 = int (nat (r - 1))" using assms(2) by simp
  then show ?thesis using js_index_clamped[OF assms(1), of "nat (r - 1)"] by simp
qed

lemma round_double_pred: "0 < r \<Longrightarrow> r \<le> 2 ^ 53 \<Longrightarrow> round_double (r - 1) = r - 1"
  by (rule round_double_exact) simp

lemma direct_refund_fields [simp]:
  "tree_id (direct_refund t ni) = tree_id t"
  "connections (direct_refund t ni) = connections t"
  "total_points (point_pool (direct_refund t ni)) = total_points (point_pool t)"
  "nodes (direct_refund t ni) =
     (nodes t)[ni := (nodes t ! ni)\<lparr>current_rank := round_double (current_rank (nodes t ! ni) - 1)\<rparr>]"
  by (simp_all add: direct_refund_def Let_def)

lemma direct_refund_costs_nonempty:
  "costs_nonempty t \<Longrightarrow> costs_nonempty (direct_refund t ni)"
  unfolding costs_nonempty_def list_all_length
  by (cases "ni < length (nodes t)") (auto simp: nth_list_update)

lemma direct_refund_costs_nonneg:
  "costs_nonneg t \<Longrightarrow> costs_nonneg (direct_refund t ni)"
  unfolding costs_nonneg_def list_all_length
  by (cases "ni < length (nodes t)") (auto simp: nth_list_update)

lemma refund_amount_nonneg:
  "cost_per_rank n \<noteq> [] \<Longrightarrow> list_all (\<lambda>c. 0 \<le> c) (cost_per_rank n) \<Longrightarrow> 0 \<le> refund_amount n"
  unfolding refund_amount_def by (rule clamped_cost_nonneg)

text \<open>Giving back one rank keeps an exact ledger exact.\<close>

lemma exact_ledger_direct_refund:
  assumes "exact_ledger t k" "ni < length (nodes t)" "0 < current_rank (nodes t ! ni)"
    "current_rank (nodes t ! ni) \<le> 2 ^ 53"
  shows "exact_ledger (direct_refund t ni) (k - refund_amount (nodes t ! ni))"
    and "recomputed_cost (direct_refund t ni) = recomputed_cost t - refund_amount (nodes t ! ni)"
proof -
  let ?n = "nodes t ! ni"
  let ?n' = "?n\<lparr>current_rank := current_rank ?n - 1\<rparr>"
  have cn: "costs_nonempty t" and cg: "costs_nonneg t" and sp: "spent (point_pool t) = Num k"
    and k: "k \<le> 2 ^ 53" "- (2 ^ 53) \<le> k - recomputed_cost t"
    using assms(1) by (simp_all add: exact_ledger_def)
  note ne = costs_nonempty_nth[OF cn assms(2)]
  note nn = costs_nonneg_nth[OF cg assms(2)]
  note rd = round_double_pred[OF assms(3,4)]
  have r0: "0 \<le> refund_amount ?n" using refund_amount_nonneg[OF ne nn] .
  have "0 \<le> accumulated_cost ?n'" by (rule accumulated_cost_nonneg) (use ne nn in simp_all)
  then have "refund_amount ?n \<le> accumulated_cost ?n"
    using accumulated_cost_dec[OF assms(3)] by simp
  then have r1: "refund_amount ?n \<le> recomputed_cost t"
    using accumulated_le_recomputed[OF cn cg assms(2)] by simp
  have "recomputed_cost (direct_refund t ni) = recomputed_cost t - accumulated_cost ?n
          + accumulated_cost ?n'"
    by (rule recomputed_cost_update[OF assms(2)]) (simp add: rd)
  then show rc: "recomputed_cost (direct_refund t ni) = recomputed_cost t - refund_amount ?n"
    using accumulated_cost_dec[OF assms(3)] by simp
  have "\<bar>k - refund_amount ?n\<bar> \<le> 2 ^ 53" using k r0 r1 by simp
  then have "js_sub (Num k) (Num (refund_amount ?n)) = Num (k - refund_amount ?n)"
    by (rule js_sub_exact)
  then have "spent (point_pool (direct_refund t ni)) = Num (k - refund_amount ?n)"
    using sp js_index_refund[OF ne assms(3)]
    by (simp add: direct_refund_def Let_def rd refund_amount_def)
  then show "exact_ledger (direct_refund t ni) (k - refund_amount ?n)"
    unfolding exact_ledger_def
    using direct_refund_costs_nonempty[OF cn] direct_refund_costs_nonneg[OF cg] k r0 rc
    by simp
qed

lemma cascaded_forced_refunds:
  assumes "cascaded t t'"
  shows "recomputed_cost t - recomputed_cost t' = forced_refunds (nodes t) (nodes t')"
proof -
  let ?R = "\<lambda>n n'. n' = n \<or> (0 < current_rank n \<and> n' = n\<lparr>current_rank := 0\<rparr>)"
  have "list_all2 ?R xs ys \<Longrightarrow>
        (\<Sum>n\<leftarrow>xs. accumulated_cost n) - (\<Sum>n\<leftarrow>ys. accumulated_cost n) = forced_refunds xs ys"
    for xs ys
    by (induction xs ys rule: list_all2_induct) (auto simp: forced_refunds_def)
  then show ?thesis using assms by (simp add: cascaded_def recomputed_cost_def)
qed

lemma refund_point_play:
  assumes "mode s \<noteq> ''edit''" "allow_refunds s" "get_tree_index s tid = Some ti"
    "get_node_index (trees s ! ti) nid = Some ni"
    "0 < current_rank (nodes (trees s ! ti) ! ni)"
  shows "refund_point now s tid nid =
         apply_cascade_refunds
           (set_tree (touch_modified now (clone_state s)) ti
              (direct_refund (clone_tree (trees s ! ti)) ni)) tid"
  using assms get_tree_index_Some[OF assms(3)]
  by (simp add: refund_point_def Let_def set_tree_def direct_refund_def)

text \<open>What the cascade has done when it returns.\<close>

lemma apply_cascade_refunds_props:
  assumes "get_tree_index s tid = Some ti" "apply_cascade_refunds s tid = Some r"
  shows "\<exists>t'. r = set_tree s ti t' \<and> find_tree r tid = Some t' \<and>
           cascaded (trees s ! ti) t' \<and>
           (\<forall>n\<in>set (nodes t'). 0 < current_rank n \<longrightarrow> check_prerequisites r tid (node_id n)) \<and>
           (\<forall>k. exact_ledger (trees s ! ti) k \<longrightarrow>
              exact_ledger t' (k - forced_refunds (nodes (trees s ! ti)) (nodes t')))"
proof -
  note ti = get_tree_index_Some[OF assms(1)]
  from all_cascaded_props[of ti s tid] ti
  obtain t' where t': "all_cascaded tid ti s = set_tree s ti t'" "cascaded (trees s ! ti) t'"
      "\<forall>i<length (nodes t'). stable_at tid ti (set_tree s ti t') i"
      "\<forall>k. exact_ledger (trees s ! ti) k \<longrightarrow>
           exact_ledger t' (k - recomputed_cost (trees s ! ti) + recomputed_cost t')"
    by blast
  let ?s' = "set_tree s ti t'"
  have res: "r = ?s'"
    using apply_cascade_refunds_result[OF assms(2)] assms(1) t'(1) by simp
  have idx: "get_tree_index ?s' tid = Some ti"
    using get_tree_index_set_tree[OF assms(1)] cascaded_tree_id[OF t'(2)] ti by simp
  have tr: "trees ?s' ! ti = t'" using ti by simp
  have ft: "find_tree ?s' tid = Some t'"
    using get_tree_index_Some[OF idx] tr by simp
  have st: "check_prerequisites ?s' tid (node_id n)"
    if "n \<in> set (nodes t')" "0 < current_rank n" for n
  proof -
    from that(1) obtain i where i: "i < length (nodes t')" "n = nodes t' ! i"
      by (auto simp: in_set_conv_nth)
    with t'(3) have "stable_at tid ti ?s' i" by simp
    then show ?thesis using i that(2) tr by (simp add: stable_at_def)
  qed
  have sp: "exact_ledger t' (k - forced_refunds (nodes (trees s ! ti)) (nodes t'))"
    if "exact_ledger (trees s ! ti) k" for k
  proof -
    have e: "k - recomputed_cost (trees s ! ti) + recomputed_cost t'
            = k - forced_refunds (nodes (trees s ! ti)) (nodes t')"
      using cascaded_forced_refunds[OF t'(2)] by simp
    have "exact_ledger t' (k - recomputed_cost (trees s ! ti) + recomputed_cost t')"
      using t'(4) that by blast
    then show ?thesis unfolding e .
  qed
  show ?thesis
    unfolding res using ft t'(2) st sp by (intro exI[of _ t']) simp
qed

section \<open>Allocations and refunds keep the books\<close>












lemma cascaded_ranks_nonneg: "cascaded t t' \<Longrightarrow> ranks_nonneg t \<Longrightarrow> ranks_nonneg t'"
  unfolding cascaded_def ranks_nonneg_def list_all_length list_all2_conv_all_nth
  by (metis less_eq_int_code(1) node.select_convs(3) node.surjective node.update_convs(3))






lemma ranks_bounded_clone [simp]: "ranks_bounded (clone_tree t) = ranks_bounded t"
  by (simp add: ranks_bounded_def)


lemma direct_refund_ranks_bounded:
  assumes "ranks_bounded t" "ni < length (nodes t)" "0 < current_rank (nodes t ! ni)"
  shows "ranks_bounded (direct_refund t ni)"
  using assms ranks_bounded_nth[OF assms(1,2)]
  unfolding ranks_bounded_def
  by (auto simp: round_double_pred intro!: list_all_update)


lemma refund_point_returns:
  assumes "\<And>ti. get_tree_index s tid = Some ti \<Longrightarrow> ranks_bounded (trees s ! ti)"
  shows "\<exists>r. refund_point now s tid nid = Some r"
proof (cases "get_tree_index s tid")
  case None
  then show ?thesis by (simp add: refund_point_def Let_def)
next
  case (Some ti)
  note ti = get_tree_index_Some[OF Some]
  let ?tr = "trees s ! ti"
  show ?thesis
  proof (cases "get_node_index ?tr nid")
    case None
    then show ?thesis using Some ti by (simp add: refund_point_def Let_def)
  next
    case (Some ni)
    note ni = get_node_index_Some[OF Some]
    let ?c = "clone_tree ?tr"
    let ?new = "touch_modified now (clone_state s)"
    let ?r = "set_tree ?new ti (direct_refund ?c ni)"
    show ?thesis
    proof (cases "allow_refunds s \<and> 0 < current_rank (nodes ?tr ! ni)")
      case False
      then show ?thesis
        using \<open>get_tree_index s tid = Some ti\<close> Some ti
        by (auto simp: refund_point_def Let_def)
    next
      case True
      have idx: "get_tree_index ?r tid = Some ti"
        using \<open>get_tree_index s tid = Some ti\<close> ti
        by (intro get_tree_index_set_tree) simp_all
      have tr: "trees ?r ! ti = direct_refund ?c ni" using ti by simp
      have rb: "ranks_bounded (direct_refund ?c ni)"
        using direct_refund_ranks_bounded[of ?c ni] assms[OF \<open>get_tree_index s tid = Some ti\<close>]
          ni True by simp
      have res: "refund_point now s tid nid =
            (if mode s \<noteq> ''edit'' \<or> cascade_refunds s then apply_cascade_refunds ?r tid
             else Some ?r)"
        using \<open>get_tree_index s tid = Some ti\<close> Some ti True
        by (simp add: refund_point_def Let_def set_tree_def direct_refund_def)
      have "\<exists>r. apply_cascade_refunds ?r tid = Some r"
        using apply_cascade_refunds_returns[of ?r tid] idx rb tr by simp
      then show ?thesis using res by auto
    qed
  qed
qed








section \<open>Adding a connection\<close>

lemma well_connected_clone [simp]: "well_connected (clone_tree t) = well_connected t"
  by (simp add: well_connected_def)

lemma list_all_update_nth:
  "list_all P xs \<Longrightarrow> (i < length xs \<Longrightarrow> P y) \<Longrightarrow> list_all P (xs[i := y])"
  by (induction xs arbitrary: i) (auto split: nat.splits)

lemma list_ex_node_id: "list_ex (\<lambda>n. node_id n = x) ns \<longleftrightarrow> x \<in> node_id ` set ns"
  by (auto simp: list_ex_iff)

lemma add_connection_shape:
  "add_connection new_id now s tid options = s \<or>
   (\<exists>ti c. get_tree_index s tid = Some ti \<and>
      from_node_id c = opt_from_node_id options \<and> to_node_id c = opt_to_node_id options \<and>
      list_ex (\<lambda>n. node_id n = opt_from_node_id options) (nodes (trees s ! ti)) \<and>
      list_ex (\<lambda>n. node_id n = opt_to_node_id options) (nodes (trees s ! ti)) \<and>
      \<not> list_ex (\<lambda>c. from_node_id c = opt_from_node_id options \<and>
                      to_node_id c = opt_to_node_id options) (connections (trees s ! ti)) \<and>
      add_connection new_id now s tid options =
        set_tree (touch_modified now (clone_state s)) ti
          ((clone_tree (trees s ! ti))\<lparr>connections := connections (trees s ! ti) @ [c]\<rparr>))"
proof (cases "get_tree_index s tid")
  case None
  then show ?thesis by (simp add: add_connection_def Let_def)
next
  case (Some ti)
  note ti = get_tree_index_Some[OF Some]
  let ?tr = "trees s ! ti"
  let ?c0 = "create_connection new_id (opt_from_node_id options) (opt_to_node_id options)"
  let ?c1 = "if opt_logic options = Some ''AND'' \<or> opt_logic options = Some ''OR''
             then ?c0\<lparr>logic := opt_logic options\<rparr> else ?c0"
  let ?c2 = "case opt_required_rank options of Some r \<Rightarrow> ?c1\<lparr>required_rank := r\<rparr> | None \<Rightarrow> ?c1"
  have ends: "from_node_id ?c2 = opt_from_node_id options" "to_node_id ?c2 = opt_to_node_id options"
    by (simp_all add: create_connection_def split: option.splits)
  show ?thesis
  proof (cases "opt_from_node_id options = [] \<or> opt_to_node_id options = []
      \<or> \<not> list_ex (\<lambda>n. node_id n = opt_from_node_id options) (nodes ?tr)
      \<or> \<not> list_ex (\<lambda>n. node_id n = opt_to_node_id options) (nodes ?tr)
      \<or> list_ex (\<lambda>c. from_node_id c = opt_from_node_id options \<and>
                      to_node_id c = opt_to_node_id options) (connections ?tr)")
    case True
    then have "add_connection new_id now s tid options = s"
      using Some ti by (simp add: add_connection_def Let_def; blast)
    then show ?thesis ..
  next
    case False
    then have "add_connection new_id now s tid options =
        set_tree (touch_modified now (clone_state s)) ti
          ((clone_tree ?tr)\<lparr>connections := connections ?tr @ [?c2]\<rparr>)"
      using Some ti by (simp add: add_connection_def Let_def set_tree_def)
    with False ends Some show ?thesis by blast
  qed
qed

lemma add_connection_rejects:
  assumes "find_tree s tid = Some tree"
    and "list_ex (\<lambda>c. from_node_id c = opt_from_node_id options \<and>
                      to_node_id c = opt_to_node_id options) (connections tree)
         \<or> opt_from_node_id options \<notin> node_id ` set (nodes tree)
         \<or> opt_to_node_id options \<notin> node_id ` set (nodes tree)"
  shows "add_connection new_id now s tid options = s"
proof -
  from add_connection_shape[of new_id now s tid options] show ?thesis
  proof
    assume "\<exists>ti c. get_tree_index s tid = Some ti \<and>
      from_node_id c = opt_from_node_id options \<and> to_node_id c = opt_to_node_id options \<and>
      list_ex (\<lambda>n. node_id n = opt_from_node_id options) (nodes (trees s ! ti)) \<and>
      list_ex (\<lambda>n. node_id n = opt_to_node_id options) (nodes (trees s ! ti)) \<and>
      \<not> list_ex (\<lambda>c. from_node_id c = opt_from_node_id options \<and>
                      to_node_id c = opt_to_node_id options) (connections (trees s ! ti)) \<and>
      add_connection new_id now s tid options =
        set_tree (touch_modified now (clone_state s)) ti
          ((clone_tree (trees s ! ti))\<lparr>connections := connections (trees s ! ti) @ [c]\<rparr>)"
    then obtain ti where ti: "get_tree_index s tid = Some ti"
      and a: "list_ex (\<lambda>n. node_id n = opt_from_node_id options) (nodes (trees s ! ti))"
        "list_ex (\<lambda>n. node_id n = opt_to_node_id options) (nodes (trees s ! ti))"
        "\<not> list_ex (\<lambda>c. from_node_id c = opt_from_node_id options \<and>
                      to_node_id c = opt_to_node_id options) (connections (trees s ! ti))"
      by blast
    have "trees s ! ti = tree" using get_tree_index_Some[OF ti] assms(1) by simp
    with a assms(2) show ?thesis by (simp add: list_ex_node_id)
  qed
qed

lemma add_connection_keeps:
  assumes "list_all well_connected (trees s)"
  shows "list_all well_connected (trees (add_connection new_id now s tid options))"
proof -
  from add_connection_shape[of new_id now s tid options] show ?thesis
  proof
    assume "add_connection new_id now s tid options = s"
    then show ?thesis using assms by simp
  next
    assume "\<exists>ti c. get_tree_index s tid = Some ti \<and>
      from_node_id c = opt_from_node_id options \<and> to_node_id c = opt_to_node_id options \<and>
      list_ex (\<lambda>n. node_id n = opt_from_node_id options) (nodes (trees s ! ti)) \<and>
      list_ex (\<lambda>n. node_id n = opt_to_node_id options) (nodes (trees s ! ti)) \<and>
      \<not> list_ex (\<lambda>c. from_node_id c = opt_from_node_id options \<and>
                      to_node_id c = opt_to_node_id options) (connections (trees s ! ti)) \<and>
      add_connection new_id now s tid options =
        set_tree (touch_modified now (clone_state s)) ti
          ((clone_tree (trees s ! ti))\<lparr>connections := connections (trees s ! ti) @ [c]\<rparr>)"
    then obtain ti c where ti: "get_tree_index s tid = Some ti"
      and c: "from_node_id c = opt_from_node_id options" "to_node_id c = opt_to_node_id options"
      and a: "list_ex (\<lambda>n. node_id n = opt_from_node_id options) (nodes (trees s ! ti))"
        "list_ex (\<lambda>n. node_id n = opt_to_node_id options) (nodes (trees s ! ti))"
        "\<not> list_ex (\<lambda>c. from_node_id c = opt_from_node_id options \<and>
                      to_node_id c = opt_to_node_id options) (connections (trees s ! ti))"
      and r: "add_connection new_id now s tid options =
        set_tree (touch_modified now (clone_state s)) ti
          ((clone_tree (trees s ! ti))\<lparr>connections := connections (trees s ! ti) @ [c]\<rparr>)"
      by blast
    let ?tr = "trees s ! ti"
    have wc: "well_connected ?tr"
      using assms get_tree_index_Some[OF ti] by (simp add: list_all_length)
    have new: "well_connected ((clone_tree ?tr)\<lparr>connections := connections ?tr @ [c]\<rparr>)"
      using wc a c unfolding list_ex_node_id by (auto simp: well_connected_def list_ex_iff)
    have "list_all well_connected (map clone_tree (trees s))"
      using assms by (simp add: list_all_iff)
    then show ?thesis
      unfolding r using new by (simp add: list_all_update_nth)
  qed
qed

section \<open>What the depth-first search returns\<close>

lemma chain_snoc:
  "chain adj p \<Longrightarrow> (p \<noteq> [] \<Longrightarrow> x \<in> set (neighbours adj (last p))) \<Longrightarrow> chain adj (p @ [x])"
  by (induction adj p rule: chain.induct) auto

lemma chain_dropWhile: "chain adj p \<Longrightarrow> chain adj (dropWhile P p)"
  by (induction adj p rule: chain.induct) auto

lemma indexOf_nonneg: "y \<in> set p \<Longrightarrow> 0 \<le> indexOf p y"
  by (induction p) (auto simp: Let_def)

lemma indexOf_neg: "y \<notin> set p \<Longrightarrow> indexOf p y = -1"
  by (induction p) (auto simp: Let_def)

lemma slice_indexOf:
  "y \<in> set p \<Longrightarrow> slice_from p (indexOf p y) = dropWhile (\<lambda>z. z \<noteq> y) p"
proof (induction p)
  case Nil
  then show ?case by simp
next
  case (Cons a p)
  show ?case
  proof (cases "a = y")
    case True
    then show ?thesis by (simp add: slice_from_def)
  next
    case False
    then have y: "y \<in> set p" using Cons.prems by simp
    have nn: "0 \<le> indexOf p y" using indexOf_nonneg[OF y] .
    have "slice_from (a # p) (indexOf p y + 1) = slice_from p (indexOf p y)"
      using nn by (simp add: slice_from_def nat_add_distrib)
    then show ?thesis using False nn Cons.IH[OF y] by (simp add: Let_def)
  qed
qed

lemma dropWhile_cycle:
  assumes "y \<in> set p" "chain adj p" "y \<in> set (neighbours adj (last p))"
  shows "cycle_in adj (dropWhile (\<lambda>z. z \<noteq> y) p)"
proof -
  let ?d = "dropWhile (\<lambda>z. z \<noteq> y) p"
  have ne: "?d \<noteq> []" using assms(1) by (simp add: dropWhile_eq_Nil_conv)
  have hd: "hd ?d = y" using assms(1) hd_dropWhile[of "\<lambda>z. z \<noteq> y" p] ne by auto
  have "p = takeWhile (\<lambda>z. z \<noteq> y) p @ ?d" by simp
  then have "last p = last ?d" using ne by (metis last_appendR)
  then show ?thesis
    using ne hd assms(2,3) chain_dropWhile[of adj p] by (simp add: cycle_in_def)
qed


text \<open>
  An adjacency object with no cell \<^verbatim>\<open>__proto__\<close> has \<^verbatim>\<open>Object.prototype\<close> as its
  prototype: what a lookup returns without throwing is the cell's targets, or nothing.
\<close>

lemma neighbors_of_plain:
  "map_of adj ''__proto__'' = None \<Longrightarrow> neighbors_of adj x = Inr ns \<Longrightarrow> ns = neighbours adj x"
  by (auto simp: neighbors_of_def adjacency_get_def neighbours_def split: option.splits if_splits)

lemma neighbors_of_key:
  "map_of adj x = Some ns \<Longrightarrow> neighbors_of adj x = Inr ns"
  by (simp add: neighbors_of_def adjacency_get_def)

lemma neighbors_of_missing:
  "map_of adj x = None \<Longrightarrow> map_of adj ''__proto__'' = None \<Longrightarrow> x \<noteq> ''__proto__'' \<Longrightarrow>
   x \<notin> set object_prototype_members \<Longrightarrow> neighbors_of adj x = Inr []"
  by (simp add: neighbors_of_def adjacency_get_def)

lemma dfs_sound:
  "map_of adj ''__proto__'' = None \<Longrightarrow> dfs_inv adj st \<Longrightarrow> x \<notin> visited st \<Longrightarrow>
     (path st \<noteq> [] \<Longrightarrow> x \<in> set (neighbours adj (last (path st)))) \<Longrightarrow>
     (case dfs adj x st of
        Inl e \<Rightarrow> True
      | Inr (Some cyc, st') \<Rightarrow> cycle_in adj cyc
      | Inr (None, st') \<Rightarrow> path st' = path st \<and> rec_stack st' = rec_stack st \<and>
                        visited st \<subseteq> visited st')"
  "map_of adj ''__proto__'' = None \<Longrightarrow> dfs_inv adj st \<Longrightarrow> path st \<noteq> [] \<Longrightarrow>
     last (path st) = x \<Longrightarrow> set ns \<subseteq> set (neighbours adj x) \<Longrightarrow>
     (case dfs_neighbors adj x ns st of
        Inl e \<Rightarrow> True
      | Inr (Some cyc, st') \<Rightarrow> cycle_in adj cyc
      | Inr (None, st') \<Rightarrow> path st' = butlast (path st) \<and> rec_stack st' = rec_stack st - {x} \<and>
                        visited st \<subseteq> visited st')"
proof (induction adj x st and adj x ns st rule: dfs_dfs_neighbors.induct)
  case (1 adj x st)
  let ?st1 = "st\<lparr>visited := insert x (visited st), rec_stack := insert x (rec_stack st),
                 path := path st @ [x]\<rparr>"
  show ?case
  proof (cases "neighbors_of adj x")
    case (Inl e)
    then show ?thesis by (simp add: dfs.simps[of adj x st])
  next
    case (Inr ns)
    have ns: "ns = neighbours adj x" using neighbors_of_plain[OF "1.prems"(1) Inr] .
    have inv1: "dfs_inv adj ?st1"
      using "1.prems" by (auto simp: dfs_inv_def intro!: chain_snoc)
    have xr: "x \<notin> rec_stack st" using "1.prems"(2,3) by (auto simp: dfs_inv_def)
    have "case dfs_neighbors adj x ns ?st1 of
          Inl e \<Rightarrow> True
        | Inr (Some cyc, st') \<Rightarrow> cycle_in adj cyc
        | Inr (None, st') \<Rightarrow> path st' = butlast (path ?st1) \<and> rec_stack st' = rec_stack ?st1 - {x} \<and>
                          visited ?st1 \<subseteq> visited st'"
      by (rule "1.IH"[OF Inr "1.prems"(1) inv1]) (simp_all add: ns)
    then show ?thesis
      using xr Inr
      by (auto simp: dfs.simps[of adj x st] split: prod.splits option.splits sum.splits)
  qed
next
  case (2 adj x st)
  then show ?case by (simp add: dfs_neighbors.simps)
next
  case (3 adj x y rest st)
  have sub: "set rest \<subseteq> set (neighbours adj x)" and yn: "y \<in> set (neighbours adj x)"
    using "3.prems"(5) by auto
  show ?case
  proof (cases "y \<in> visited st")
    case False
    have p: "case dfs adj y st of
        Inl e \<Rightarrow> True
      | Inr (Some cyc, st') \<Rightarrow> cycle_in adj cyc
      | Inr (None, st') \<Rightarrow> path st' = path st \<and> rec_stack st' = rec_stack st \<and>
                        visited st \<subseteq> visited st'"
      using "3.IH"(1)[OF False "3.prems"(1,2) False] yn "3.prems"(4) by simp
    show ?thesis
    proof (cases "dfs adj y st")
      case (Inl e)
      then show ?thesis using False by (simp add: dfs_neighbors.simps)
    next
      case (Inr q)
      obtain r st' where q: "q = (r, st')" by (cases q)
      show ?thesis
      proof (cases r)
        case (Some cyc)
        then show ?thesis using p Inr q False by (simp add: dfs_neighbors.simps)
      next
        case None
        then have e: "path st' = path st" "rec_stack st' = rec_stack st" "visited st \<subseteq> visited st'"
          using p Inr q by auto
        have inv': "dfs_inv adj st'" using "3.prems"(2) e by (auto simp: dfs_inv_def)
        have "case dfs_neighbors adj x rest st' of
          Inl e \<Rightarrow> True
        | Inr (Some cyc, st'') \<Rightarrow> cycle_in adj cyc
        | Inr (None, st'') \<Rightarrow> path st'' = butlast (path st') \<and> rec_stack st'' = rec_stack st' - {x} \<and>
                          visited st' \<subseteq> visited st''"
          using "3.IH"(2)[OF False Inr q[symmetric] None "3.prems"(1) inv'] "3.prems"(3,4) e sub
          by simp
        moreover have "dfs_neighbors adj x (y # rest) st = dfs_neighbors adj x rest st'"
          using Inr q None False by (simp add: dfs_neighbors.simps(2)[of adj x y rest st])
        ultimately show ?thesis
        proof (cases "dfs_neighbors adj x rest st'")
          case (Inl e')
          then show ?thesis
            using \<open>dfs_neighbors adj x (y # rest) st = dfs_neighbors adj x rest st'\<close> by simp
        next
          case rest: (Inr q')
          obtain r' st'' where q': "q' = (r', st'')" by (cases q')
          show ?thesis
            using rest q' e
              \<open>dfs_neighbors adj x (y # rest) st = dfs_neighbors adj x rest st'\<close>
              \<open>case dfs_neighbors adj x rest st' of
          Inl e \<Rightarrow> True
        | Inr (Some cyc, st'') \<Rightarrow> cycle_in adj cyc
        | Inr (None, st'') \<Rightarrow> path st'' = butlast (path st') \<and> rec_stack st'' = rec_stack st' - {x} \<and>
                          visited st' \<subseteq> visited st''\<close>
            by (cases r') auto
        qed
      qed
    qed
  next
    case True
    show ?thesis
    proof (cases "y \<in> rec_stack st")
      case onstack: True
      then have yp: "y \<in> set (path st)" using "3.prems"(2) by (simp add: dfs_inv_def)
      have "cycle_in adj (dropWhile (\<lambda>z. z \<noteq> y) (path st))"
        using dropWhile_cycle[OF yp] "3.prems"(2,4) yn by (simp add: dfs_inv_def)
      then show ?thesis
        using True onstack by (simp add: dfs_neighbors.simps slice_indexOf[OF yp])
    next
      case False
      have "case dfs_neighbors adj x rest st of
          Inl e \<Rightarrow> True
        | Inr (Some cyc, st'') \<Rightarrow> cycle_in adj cyc
        | Inr (None, st'') \<Rightarrow> path st'' = butlast (path st) \<and> rec_stack st'' = rec_stack st - {x} \<and>
                          visited st \<subseteq> visited st''"
        using "3.IH"(3)[OF _ False "3.prems"(1,2,3,4) sub] True by simp
      then show ?thesis using True False by (simp add: dfs_neighbors.simps)
    qed
  qed
qed

lemma detect_cycle_from_sound:
  "map_of adj ''__proto__'' = None \<Longrightarrow> dfs_inv adj st \<Longrightarrow> path st = [] \<Longrightarrow>
   detect_cycle_from adj ns st = Inr (Some cyc) \<Longrightarrow> cycle_in adj cyc"
proof (induction ns arbitrary: st)
  case Nil
  then show ?case by simp
next
  case (Cons n ns)
  show ?case
  proof (cases "node_id n \<in> visited st")
    case True
    then show ?thesis using Cons by simp
  next
    case False
    have p: "case dfs adj (node_id n) st of
        Inl e \<Rightarrow> True
      | Inr (Some cyc, st') \<Rightarrow> cycle_in adj cyc
      | Inr (None, st') \<Rightarrow> path st' = path st \<and> rec_stack st' = rec_stack st \<and>
                        visited st \<subseteq> visited st'"
      using dfs_sound(1)[OF Cons.prems(1,2) False] Cons.prems(3) by simp
    show ?thesis
    proof (cases "dfs adj (node_id n) st")
      case (Inl e)
      then show ?thesis using False Cons.prems(4) by simp
    next
      case (Inr q)
      obtain r st' where q: "q = (r, st')" by (cases q)
      show ?thesis
      proof (cases r)
        case (Some c)
        then show ?thesis using p Inr q False Cons.prems(4) by simp
      next
        case None
        then have e: "path st' = path st" "rec_stack st' = rec_stack st" "visited st \<subseteq> visited st'"
          using p Inr q by auto
        have "dfs_inv adj st'" using Cons.prems(2) e by (auto simp: dfs_inv_def)
        moreover have "path st' = []" using e Cons.prems(3) by simp
        moreover have "detect_cycle_from adj ns st' = Inr (Some cyc)"
          using Cons.prems(4) Inr q None False by simp
        ultimately show ?thesis by (rule Cons.IH[OF Cons.prems(1)])
      qed
    qed
  qed
qed

section \<open>Cycles of the adjacency list are cycles of the connections\<close>

lemma map_of_fold_nodes:
  "map_of (fold (\<lambda>node a. AList.update (node_id node) [] a) ns a0) x
     = (if x \<in> node_id ` set ns then Some [] else map_of a0 x)"
  by (induction ns arbitrary: a0) (auto simp: update_conv')

lemma fold_adjacency_push_Inl: "fold adjacency_push cs (Inl e) = Inl e"
  by (induction cs) (simp_all add: adjacency_push_def)

lemma adjacency_push_plain:
  assumes "map_of a ''__proto__'' = None" "adjacency_push c (Inr a) = Inr b"
  shows "map_of b ''__proto__'' = None"
    and "map_of b x = (case map_of a x of
                         None \<Rightarrow> None
                       | Some ns \<Rightarrow> Some (if from_node_id c = x then ns @ [to_node_id c] else ns))"
  using assms
  by (auto simp: adjacency_push_def adjacency_get_def update_conv'
      split: option.splits if_splits)

lemma map_of_fold_conns:
  "map_of a ''__proto__'' = None \<Longrightarrow> fold adjacency_push cs (Inr a) = Inr adj \<Longrightarrow>
   map_of adj x
     = (case map_of a x of
          None \<Rightarrow> None
        | Some ns \<Rightarrow> Some (ns @ map to_node_id (filter (\<lambda>c. from_node_id c = x) cs)))"
proof (induction cs arbitrary: a)
  case Nil
  then show ?case by (simp split: option.splits)
next
  case (Cons c cs)
  show ?case
  proof (cases "adjacency_push c (Inr a)")
    case (Inl e)
    then show ?thesis using Cons.prems(2) by (simp add: fold_adjacency_push_Inl)
  next
    case (Inr b)
    have "map_of adj x
      = (case map_of b x of
           None \<Rightarrow> None
         | Some ns \<Rightarrow> Some (ns @ map to_node_id (filter (\<lambda>c. from_node_id c = x) cs)))"
      using Cons.IH[OF adjacency_push_plain(1)[OF Cons.prems(1) Inr]] Cons.prems(2) Inr by simp
    then show ?thesis
      by (simp add: adjacency_push_plain(2)[OF Cons.prems(1) Inr] split: option.splits)
  qed
qed

lemma map_of_build_adjacency:
  assumes "''__proto__'' \<notin> node_id ` set (nodes t)" "build_adjacency t = Inr adj"
  shows "map_of adj x
     = (if x \<in> node_id ` set (nodes t)
        then Some (map to_node_id (filter (\<lambda>c. from_node_id c = x) (connections t))) else None)"
proof -
  let ?a = "fold (\<lambda>node adjacency. AList.update (node_id node) [] adjacency) (nodes t) []"
  have p: "map_of ?a ''__proto__'' = None" using assms(1) by (simp add: map_of_fold_nodes)
  have f: "fold adjacency_push (connections t) (Inr ?a) = Inr adj"
    using assms(2) by (simp add: build_adjacency_def)
  show ?thesis by (simp add: map_of_fold_conns[OF p f] map_of_fold_nodes)
qed

lemma neighbours_build_adjacency:
  assumes "''__proto__'' \<notin> node_id ` set (nodes t)" "build_adjacency t = Inr adj"
  shows "neighbours adj x
     = (if x \<in> node_id ` set (nodes t)
        then map to_node_id (filter (\<lambda>c. from_node_id c = x) (connections t)) else [])"
  by (simp add: neighbours_def map_of_build_adjacency[OF assms])

lemma neighbour_edge:
  assumes "''__proto__'' \<notin> node_id ` set (nodes t)" "build_adjacency t = Inr adj"
    and "y \<in> set (neighbours adj x)"
  shows "(x, y) \<in> edges t"
proof -
  have "y \<in> set (map to_node_id (filter (\<lambda>c. from_node_id c = x) (connections t)))"
    using assms(3)
    by (cases "x \<in> node_id ` set (nodes t)")
       (simp_all add: neighbours_build_adjacency[OF assms(1,2)])
  then obtain c where "c \<in> set (connections t)" "from_node_id c = x" "to_node_id c = y"
    by auto
  then show ?thesis unfolding edges_def by force
qed

lemma chain_follows:
  assumes "''__proto__'' \<notin> node_id ` set (nodes t)" "build_adjacency t = Inr adj"
  shows "chain adj p \<Longrightarrow> follows_edges t p"
  by (induction p rule: induct_list012) (auto dest: neighbour_edge[OF assms])

lemma cycle_in_is_cycle:
  assumes "''__proto__'' \<notin> node_id ` set (nodes t)" "build_adjacency t = Inr adj"
  shows "cycle_in adj cyc \<Longrightarrow> is_cycle t cyc"
  by (simp add: cycle_in_def is_cycle_def chain_follows[OF assms] neighbour_edge[OF assms])

lemma follows_rtrancl: "follows_edges t p \<Longrightarrow> p \<noteq> [] \<Longrightarrow> (hd p, last p) \<in> (edges t)\<^sup>*"
  by (induction p rule: induct_list012) (auto intro: converse_rtrancl_into_rtrancl)

lemma is_cycle_not_acyclic: "is_cycle t cyc \<Longrightarrow> \<not> acyclic (edges t)"
proof -
  assume c: "is_cycle t cyc"
  then have "(hd cyc, last cyc) \<in> (edges t)\<^sup>*" "(last cyc, hd cyc) \<in> edges t"
    by (auto simp: is_cycle_def follows_rtrancl)
  then have "(hd cyc, hd cyc) \<in> (edges t)\<^sup>+" by (rule rtrancl_into_trancl1)
  then show ?thesis by (auto simp: acyclic_def)
qed

text \<open>
  When no node of the tree is called \<^verbatim>\<open>__proto__\<close>, whatever list \<open>detect_cycle\<close>
  returns is a cycle of the connections.
\<close>

lemma detect_cycle_sound:
  assumes "''__proto__'' \<notin> node_id ` set (nodes t)" "detect_cycle t = Inr (Some cyc)"
  shows "is_cycle t cyc"
proof -
  obtain adj where b: "build_adjacency t = Inr adj"
    using assms(2) by (cases "build_adjacency t") (simp_all add: detect_cycle_def)
  have d: "detect_cycle_from adj (nodes t)
       \<lparr>visited = {}, rec_stack = {}, path = []\<rparr> = Inr (Some cyc)"
    using assms(2) b by (simp add: detect_cycle_def)
  have p: "map_of adj ''__proto__'' = None"
    using assms(1) by (simp add: map_of_build_adjacency[OF assms(1) b])
  have i: "dfs_inv adj \<lparr>visited = {}, rec_stack = {}, path = []\<rparr>"
    by (simp add: dfs_inv_def)
  have "cycle_in adj cyc"
    by (rule detect_cycle_from_sound[OF p i _ d]) simp
  then show ?thesis by (rule cycle_in_is_cycle[OF assms(1) b])
qed

text \<open>
  The search returns when no lookup it makes finds a member of the prototype: with
  \<open>plain_ids\<close>, every end of a connection that is no node of the tree is not a name that a
  plain object inherits.
\<close>

lemma build_adjacency_returns:
  assumes "plain_ids t"
  shows "\<exists>adj. build_adjacency t = Inr adj"
proof -
  let ?ids = "node_id ` set (nodes t)"
  have g: "dom (map_of a) = ?ids \<Longrightarrow>
        \<forall>c\<in>set cs. from_node_id c \<in> ?ids \<or>
          (from_node_id c \<noteq> ''__proto__'' \<and> from_node_id c \<notin> set object_prototype_members) \<Longrightarrow>
        \<exists>adj. fold adjacency_push cs (Inr a) = Inr adj" for a cs
  proof (induction cs arbitrary: a)
    case Nil
    then show ?case by simp
  next
    case (Cons c cs)
    have np: "map_of a ''__proto__'' = None"
      using Cons.prems(1) assms by (auto simp: plain_ids_def)
    have "\<exists>b. adjacency_push c (Inr a) = Inr b \<and> dom (map_of b) = ?ids"
    proof (cases "map_of a (from_node_id c)")
      case None
      then have "from_node_id c \<notin> ?ids" using Cons.prems(1) by auto
      then have "adjacency_push c (Inr a) = Inr a"
        using Cons.prems(2) None np by (simp add: adjacency_push_def adjacency_get_def)
      then show ?thesis using Cons.prems(1) by simp
    next
      case (Some ts)
      then have "adjacency_push c (Inr a)
          = Inr (AList.update (from_node_id c) (ts @ [to_node_id c]) a)"
        by (simp add: adjacency_push_def adjacency_get_def)
      moreover have "dom (map_of (AList.update (from_node_id c) (ts @ [to_node_id c]) a)) = ?ids"
        using Cons.prems(1) Some by (auto simp: update_conv')
      ultimately show ?thesis by simp
    qed
    then obtain b where b: "adjacency_push c (Inr a) = Inr b" "dom (map_of b) = ?ids" by blast
    show ?case using Cons.IH[OF b(2)] Cons.prems(2) b(1) by simp
  qed
  have "dom (map_of (fold (\<lambda>node adjacency. AList.update (node_id node) [] adjacency) (nodes t) []))
      = ?ids"
    by (auto simp: map_of_fold_nodes dom_def)
  then show ?thesis
    unfolding build_adjacency_def
    by (rule g) (use assms in \<open>auto simp: plain_ids_def list_all_iff\<close>)
qed

section \<open>When the search returns\<close>

lemma dfs_returns:
  "map_of adj ''__proto__'' = None \<Longrightarrow>
   \<forall>k ns. map_of adj k = Some ns \<longrightarrow> (\<forall>y\<in>set ns. \<exists>ms. neighbors_of adj y = Inr ms) \<Longrightarrow>
   \<exists>ms. neighbors_of adj x = Inr ms \<Longrightarrow> \<exists>r. dfs adj x st = Inr r"
  "map_of adj ''__proto__'' = None \<Longrightarrow>
   \<forall>k ns. map_of adj k = Some ns \<longrightarrow> (\<forall>y\<in>set ns. \<exists>ms. neighbors_of adj y = Inr ms) \<Longrightarrow>
   \<forall>y\<in>set ns. \<exists>ms. neighbors_of adj y = Inr ms \<Longrightarrow> \<exists>r. dfs_neighbors adj x ns st = Inr r"
proof (induction adj x st and adj x ns st rule: dfs_dfs_neighbors.induct)
  case (1 adj x st)
  then obtain ms where ms: "neighbors_of adj x = Inr ms" by blast
  have "ms = neighbours adj x" using neighbors_of_plain[OF "1.prems"(1) ms] .
  then have "\<forall>y\<in>set ms. \<exists>ms'. neighbors_of adj y = Inr ms'"
    using "1.prems"(2) by (auto simp: neighbours_def split: option.splits)
  from "1.IH"[OF ms "1.prems"(1,2) this] show ?case
    using ms by (simp add: dfs.simps[of adj x st])
next
  case (2 adj x st)
  then show ?case by (simp add: dfs_neighbors.simps)
next
  case (3 adj x y rest st)
  have r: "\<forall>z\<in>set rest. \<exists>ms. neighbors_of adj z = Inr ms" and y: "\<exists>ms. neighbors_of adj y = Inr ms"
    using "3.prems"(3) by auto
  show ?case
  proof (cases "y \<in> visited st")
    case False
    obtain q where q: "dfs adj y st = Inr q"
      using "3.IH"(1)[OF False "3.prems"(1,2) y] by blast
    obtain c st' where c: "q = (c, st')" by (cases q)
    show ?thesis
    proof (cases c)
      case None
      from "3.IH"(2)[OF False q c[symmetric] None "3.prems"(1,2) r] show ?thesis
        using False q c None by (simp add: dfs_neighbors.simps(2)[of adj x y rest st])
    next
      case (Some cyc)
      then show ?thesis using False q c by (simp add: dfs_neighbors.simps(2)[of adj x y rest st])
    qed
  next
    case True
    show ?thesis
    proof (cases "y \<in> rec_stack st")
      case onstack: True
      then show ?thesis using True by (simp add: dfs_neighbors.simps)
    next
      case False
      from "3.IH"(3)[OF _ False "3.prems"(1,2) r] True show ?thesis
        using False by (simp add: dfs_neighbors.simps)
    qed
  qed
qed

lemma detect_cycle_from_returns:
  assumes "map_of adj ''__proto__'' = None"
    and "\<forall>k ns. map_of adj k = Some ns \<longrightarrow> (\<forall>y\<in>set ns. \<exists>ms. neighbors_of adj y = Inr ms)"
  shows "\<forall>n\<in>set ns. \<exists>ms. neighbors_of adj (node_id n) = Inr ms \<Longrightarrow>
         \<exists>r. detect_cycle_from adj ns st = Inr r"
proof (induction ns arbitrary: st)
  case Nil
  then show ?case by simp
next
  case (Cons n ns)
  have t: "\<forall>n\<in>set ns. \<exists>ms. neighbors_of adj (node_id n) = Inr ms" using Cons.prems by simp
  show ?case
  proof (cases "node_id n \<in> visited st")
    case True
    then show ?thesis using Cons.IH[OF t] by simp
  next
    case False
    obtain q where q: "dfs adj (node_id n) st = Inr q"
      using dfs_returns(1)[OF assms, of "node_id n" st] Cons.prems by auto
    obtain c st' where c: "q = (c, st')" by (cases q)
    show ?thesis using Cons.IH[OF t, of st'] False q c by (cases c) simp_all
  qed
qed

text \<open>
  With \<open>plain_ids\<close>, \<open>detect_cycle\<close> returns, and what it returns on an acyclic connection
  graph is \<^verbatim>\<open>null\<close>.
\<close>

lemma detect_cycle_returns:
  assumes "plain_ids t"
  shows "\<exists>r. detect_cycle t = Inr r"
proof -
  let ?ids = "node_id ` set (nodes t)"
  have np: "''__proto__'' \<notin> ?ids" using assms by (simp add: plain_ids_def)
  obtain adj where b: "build_adjacency t = Inr adj"
    using build_adjacency_returns[OF assms] by blast
  note m = map_of_build_adjacency[OF np b]
  have p: "map_of adj ''__proto__'' = None" using np by (simp add: m)
  have key: "\<exists>ms. neighbors_of adj x = Inr ms" if "x \<in> ?ids" for x
    using that by (simp add: neighbors_of_def adjacency_get_def m)
  have other: "\<exists>ms. neighbors_of adj x = Inr ms"
    if "x \<notin> ?ids" "x \<noteq> ''__proto__''" "x \<notin> set object_prototype_members" for x
    using that np by (simp add: neighbors_of_def adjacency_get_def m)
  have tg: "\<forall>k ns. map_of adj k = Some ns \<longrightarrow> (\<forall>y\<in>set ns. \<exists>ms. neighbors_of adj y = Inr ms)"
  proof (intro allI impI ballI)
    fix k ns y
    assume "map_of adj k = Some ns" "y \<in> set ns"
    then obtain c where "c \<in> set (connections t)" "to_node_id c = y"
      by (auto simp: m split: if_splits)
    then have "y \<in> ?ids \<or> (y \<noteq> ''__proto__'' \<and> y \<notin> set object_prototype_members)"
      using assms by (auto simp: plain_ids_def list_all_iff)
    then show "\<exists>ms. neighbors_of adj y = Inr ms" using key other by blast
  qed
  have "\<exists>r. detect_cycle_from adj (nodes t) \<lparr>visited = {}, rec_stack = {}, path = []\<rparr> = Inr r"
    by (rule detect_cycle_from_returns[OF p tg]) (use key in auto)
  then show ?thesis by (simp add: detect_cycle_def b)
qed

lemma detect_cycle_acyclic:
  assumes "plain_ids t" "acyclic (edges t)"
  shows "detect_cycle t = Inr None"
proof -
  obtain r where r: "detect_cycle t = Inr r" using detect_cycle_returns[OF assms(1)] by blast
  have np: "''__proto__'' \<notin> node_id ` set (nodes t)" using assms(1) by (simp add: plain_ids_def)
  show ?thesis
  proof (cases r)
    case None
    then show ?thesis using r by simp
  next
    case (Some cyc)
    then show ?thesis
      using is_cycle_not_acyclic[OF detect_cycle_sound[OF np]] r assms(2) by simp
  qed
qed

section \<open>The search on a triangle\<close>

lemma dfs_unfold:
  "neighbors_of adj x = Inr ns \<Longrightarrow>
   dfs adj x st = dfs_neighbors adj x ns
     (st\<lparr>visited := insert x (visited st), rec_stack := insert x (rec_stack st),
         path := path st @ [x]\<rparr>)"
  by (simp add: dfs.simps[of adj x st])

lemma dfs_isolated:
  "neighbors_of adj z = Inr [] \<Longrightarrow> rec_stack st = {} \<Longrightarrow> path st = [] \<Longrightarrow>
   dfs adj z st = Inr (None, st\<lparr>visited := insert z (visited st), rec_stack := {}, path := []\<rparr>)"
  by (simp add: dfs_unfold dfs_neighbors.simps)

lemma dfs_triangle:
  assumes "a \<noteq> b" "a \<noteq> c" "b \<noteq> c"
    and "neighbors_of adj a = Inr [b]" "neighbors_of adj b = Inr [c]"
      "neighbors_of adj c = Inr [a]"
    and "a \<notin> visited st" "b \<notin> visited st" "c \<notin> visited st"
    and "rec_stack st = {}" "path st = []"
  shows "\<exists>st'. dfs adj a st = Inr (Some [a, b, c], st')"
  using assms
  by (simp add: dfs_unfold dfs_neighbors.simps slice_from_def Let_def)

lemma distinct_singleton: "distinct ys \<Longrightarrow> set ys = {v} \<Longrightarrow> ys = [v]"
  by (cases ys; cases "tl ys") auto

text \<open>
  When the source of every connection is a node, each of them is stored, whatever the ids
  are: a cell of the object is found before anything the object inherits.
\<close>

lemma fold_push_keys:
  "\<forall>c\<in>set cs. from_node_id c \<in> dom (map_of a) \<Longrightarrow>
   \<exists>adj. fold adjacency_push cs (Inr a) = Inr adj \<and>
         (\<forall>x. map_of adj x
            = (case map_of a x of
                 None \<Rightarrow> None
               | Some ns \<Rightarrow> Some (ns @ map to_node_id (filter (\<lambda>c. from_node_id c = x) cs))))"
proof (induction cs arbitrary: a)
  case Nil
  then show ?case by (simp split: option.splits)
next
  case (Cons c cs)
  obtain ts where ts: "map_of a (from_node_id c) = Some ts" using Cons.prems by auto
  let ?b = "AList.update (from_node_id c) (ts @ [to_node_id c]) a"
  have p: "adjacency_push c (Inr a) = Inr ?b"
    using ts by (simp add: adjacency_push_def adjacency_get_def)
  have d: "\<forall>c\<in>set cs. from_node_id c \<in> dom (map_of ?b)"
    using Cons.prems by (auto simp: update_conv')
  from Cons.IH[OF d] obtain adj where
    adj: "fold adjacency_push cs (Inr ?b) = Inr adj"
      "\<And>x. map_of adj x
            = (case map_of ?b x of
                 None \<Rightarrow> None
               | Some ns \<Rightarrow> Some (ns @ map to_node_id (filter (\<lambda>c. from_node_id c = x) cs)))"
    by blast
  show ?case
    using adj(1) p ts by (auto simp: adj(2) update_conv' split: option.splits)
qed

lemma build_adjacency_keys:
  assumes "\<forall>c\<in>set (connections t). from_node_id c \<in> node_id ` set (nodes t)"
  shows "\<exists>adj. build_adjacency t = Inr adj \<and>
     (\<forall>x. map_of adj x
        = (if x \<in> node_id ` set (nodes t)
           then Some (map to_node_id (filter (\<lambda>c. from_node_id c = x) (connections t)))
           else None))"
proof -
  let ?a = "fold (\<lambda>node adjacency. AList.update (node_id node) [] adjacency) (nodes t) []"
  have "\<forall>c\<in>set (connections t). from_node_id c \<in> dom (map_of ?a)"
    using assms by (auto simp: map_of_fold_nodes dom_def)
  from fold_push_keys[OF this] show ?thesis
    by (auto simp: build_adjacency_def map_of_fold_nodes)
qed

lemma single_neighbour:
  assumes "distinct (map (\<lambda>c. (from_node_id c, to_node_id c)) (connections t))"
    and "\<forall>e\<in>edges t. fst e = x \<longrightarrow> e = (x, y)" "(x, y) \<in> edges t"
  shows "map to_node_id (filter (\<lambda>c. from_node_id c = x) (connections t)) = [y]"
proof -
  let ?e = "\<lambda>c. (from_node_id c, to_node_id c)"
  let ?f = "filter (\<lambda>c. from_node_id c = x) (connections t)"
  have eq: "map ?e ?f = filter (\<lambda>e. fst e = x) (map ?e (connections t))"
    by (simp add: filter_map comp_def)
  have "distinct (map ?e ?f)" unfolding eq using assms(1) by simp
  moreover have "set (map ?e ?f) = {(x, y)}"
    unfolding eq using assms(2,3) by (auto simp: edges_def)
  ultimately have "map ?e ?f = [(x, y)]" by (rule distinct_singleton)
  then have "map snd (map ?e ?f) = [y]" by simp
  then show ?thesis by (simp add: comp_def)
qed

lemma no_neighbour:
  assumes "\<forall>e\<in>edges t. fst e \<noteq> z"
  shows "map to_node_id (filter (\<lambda>c. from_node_id c = z) (connections t)) = []"
  using assms by (auto simp: edges_def filter_empty_conv)

lemma detect_cycle_from_Some:
  "node_id h \<notin> visited st \<Longrightarrow> dfs adj (node_id h) st = Inr (Some cyc, st') \<Longrightarrow>
   detect_cycle_from adj (h # ns) st = Inr (Some cyc)"
  by simp

lemma detect_triangle_from:
  assumes d: "a \<noteq> b" "a \<noteq> c" "b \<noteq> c"
    and n: "neighbors_of adj a = Inr [b]" "neighbors_of adj b = Inr [c]"
      "neighbors_of adj c = Inr [a]"
    and z: "\<And>z. z \<notin> {a, b, c} \<Longrightarrow> z \<in> node_id ` set nds \<Longrightarrow> neighbors_of adj z = Inr []"
  shows "set ns \<subseteq> set nds \<Longrightarrow> visited st \<inter> {a, b, c} = {} \<Longrightarrow> rec_stack st = {} \<Longrightarrow>
         path st = [] \<Longrightarrow> find (\<lambda>n. node_id n \<in> {a, b, c}) ns = Some n \<Longrightarrow>
         detect_cycle_from adj ns st = Inr (Some (triangle_from a b c (node_id n)))"
proof (induction ns arbitrary: st)
  case Nil
  then show ?case by simp
next
  case (Cons h ns)
  have sub: "set ns \<subseteq> set nds" and hin: "h \<in> set nds" using Cons.prems(1) by auto
  show ?case
  proof (cases "node_id h \<in> {a, b, c}")
    case True
    then have hn: "n = h" using Cons.prems(5) by simp
    have nv: "a \<notin> visited st" "b \<notin> visited st" "c \<notin> visited st"
      using Cons.prems(2) by auto
    have "\<exists>st'. dfs adj (node_id h) st = Inr (Some (triangle_from a b c (node_id h)), st')"
      using True d
        dfs_triangle[OF d(1,2,3) n nv Cons.prems(3,4)]
        dfs_triangle[OF d(3) d(1)[symmetric] d(2)[symmetric] n(2,3,1) nv(2,3,1) Cons.prems(3,4)]
        dfs_triangle[OF d(2)[symmetric] d(3)[symmetric] d(1) n(3,1,2) nv(3,1,2) Cons.prems(3,4)]
      by (auto simp: triangle_from_def)
    then obtain st' where
      "dfs adj (node_id h) st = Inr (Some (triangle_from a b c (node_id h)), st')" by blast
    moreover have "node_id h \<notin> visited st" using True nv by auto
    ultimately show ?thesis unfolding hn by (rule detect_cycle_from_Some[rotated])
  next
    case False
    then have f: "find (\<lambda>n. node_id n \<in> {a, b, c}) ns = Some n" using Cons.prems(5) by simp
    show ?thesis
    proof (cases "node_id h \<in> visited st")
      case True
      then show ?thesis using Cons.IH[OF sub Cons.prems(2,3,4) f] by simp
    next
      case nv: False
      let ?st' = "st\<lparr>visited := insert (node_id h) (visited st), rec_stack := {}, path := []\<rparr>"
      have "neighbors_of adj (node_id h) = Inr []" using z[OF False] hin by simp
      then have "dfs adj (node_id h) st = Inr (None, ?st')"
        using dfs_isolated Cons.prems(3,4) by simp
      moreover have "detect_cycle_from adj ns ?st' = Inr (Some (triangle_from a b c (node_id n)))"
        using False Cons.prems(2) by (intro Cons.IH sub f) auto
      ultimately show ?thesis using nv by simp
    qed
  qed
qed

text \<open>
  In a tree that has nodes with the three distinct ids \<open>a\<close>, \<open>b\<close>, \<open>c\<close> and whose
  connections are exactly \<open>a \<rightarrow> b\<close>, \<open>b \<rightarrow> c\<close>, \<open>c \<rightarrow> a\<close>, one of each, \<open>detect_cycle\<close>
  returns the three ids in the order of the traversal, which starts at the first of them in
  \<^verbatim>\<open>tree.nodes\<close>.
\<close>

lemma detect_triangle:
  assumes d: "a \<noteq> b" "a \<noteq> c" "b \<noteq> c"
    and ids: "{a, b, c} \<subseteq> node_id ` set (nodes t)"
    and dist: "distinct (map (\<lambda>c. (from_node_id c, to_node_id c)) (connections t))"
    and e: "edges t = {(a, b), (b, c), (c, a)}"
  shows "\<exists>n. find (\<lambda>n. node_id n \<in> {a, b, c}) (nodes t) = Some n \<and>
             detect_cycle t = Inr (Some (triangle_from a b c (node_id n)))"
proof -
  obtain n where f: "find (\<lambda>n. node_id n \<in> {a, b, c}) (nodes t) = Some n"
    using ids by (cases "find (\<lambda>n. node_id n \<in> {a, b, c}) (nodes t)") (auto simp: find_None_iff)
  have "\<forall>c\<in>set (connections t). from_node_id c \<in> node_id ` set (nodes t)"
  proof
    fix k assume "k \<in> set (connections t)"
    then have "(from_node_id k, to_node_id k) \<in> edges t" by (auto simp: edges_def)
    then show "from_node_id k \<in> node_id ` set (nodes t)" using e ids by auto
  qed
  from build_adjacency_keys[OF this] obtain adj where b: "build_adjacency t = Inr adj"
    and m: "\<And>x. map_of adj x
        = (if x \<in> node_id ` set (nodes t)
           then Some (map to_node_id (filter (\<lambda>c. from_node_id c = x) (connections t)))
           else None)"
    by blast
  have sa: "map to_node_id (filter (\<lambda>k. from_node_id k = a) (connections t)) = [b]"
    by (rule single_neighbour[OF dist]) (use d e in auto)
  have sb: "map to_node_id (filter (\<lambda>k. from_node_id k = b) (connections t)) = [c]"
    by (rule single_neighbour[OF dist]) (use d e in auto)
  have sc: "map to_node_id (filter (\<lambda>k. from_node_id k = c) (connections t)) = [a]"
    by (rule single_neighbour[OF dist]) (use d e in auto)
  have na: "neighbors_of adj a = Inr [b]"
    by (rule neighbors_of_key) (use ids sa in \<open>simp add: m\<close>)
  have nb: "neighbors_of adj b = Inr [c]"
    by (rule neighbors_of_key) (use ids sb in \<open>simp add: m\<close>)
  have nc: "neighbors_of adj c = Inr [a]"
    by (rule neighbors_of_key) (use ids sc in \<open>simp add: m\<close>)
  have nz: "neighbors_of adj z = Inr []"
    if "z \<notin> {a, b, c}" "z \<in> node_id ` set (nodes t)" for z
  proof -
    have "\<forall>e\<in>edges t. fst e \<noteq> z" using that(1) e by auto
    then have "map to_node_id (filter (\<lambda>k. from_node_id k = z) (connections t)) = []"
      by (rule no_neighbour)
    then show ?thesis by (intro neighbors_of_key) (use that(2) in \<open>simp add: m\<close>)
  qed
  have "detect_cycle_from adj (nodes t) \<lparr>visited = {}, rec_stack = {}, path = []\<rparr>
      = Inr (Some (triangle_from a b c (node_id n)))"
  proof (rule detect_triangle_from[where nds = "nodes t", OF d na nb nc])
    show "neighbors_of adj z = Inr []" if "z \<notin> {a, b, c}" "z \<in> node_id ` set (nodes t)" for z
      using that by (rule nz)
  qed (use f in simp_all)
  then have "detect_cycle t = Inr (Some (triangle_from a b c (node_id n)))"
    by (simp add: detect_cycle_def b)
  with f show ?thesis by blast
qed

text \<open>\<open>validate_tree\<close> reports the cycle that \<open>detect_cycle\<close> returns.\<close>

lemma validate_tree_cycle:
  assumes "find_tree s tid = Some t" "detect_cycle t = Inr (Some cyc)"
  shows "ranks_bounded t \<Longrightarrow> validate_tree s tid \<noteq> None"
    and "validate_tree s tid = Some (Inr r) \<Longrightarrow>
         ERR_CYCLIC_DEPENDENCY cyc \<in> set (errors r) \<and> \<not> is_valid r"
    and "validate_tree s tid \<noteq> Some (Inl e)"
  using assms
  by (auto simp: validate_tree_def Let_def calculate_spent_points_result
      split: option.splits if_splits)

text \<open>
  The step that finds the cycle: a neighbour on the recursion stack ends the search with
  the path from the first occurrence of that neighbour to its end, the current node.
\<close>

lemma dfs_neighbors_on_stack:
  "neighbor \<in> visited st \<Longrightarrow> neighbor \<in> rec_stack st \<Longrightarrow> neighbor \<in> set (path st) \<Longrightarrow>
   dfs_neighbors adj x (neighbor # rest) st
     = Inr (Some (dropWhile (\<lambda>z. z \<noteq> neighbor) (path st)), st)"
  by (simp add: dfs_neighbors.simps slice_indexOf)

section \<open>The reachability search\<close>

lemma find_node_known: "find_node s tid x = Some n \<Longrightarrow> x \<in> known_ids s tid"
  by (auto simp: find_node_def known_ids_def split: option.splits dest!: find_Some_iff[THEN iffD1])

lemma finite_known_ids [simp]: "finite (known_ids s tid)"
  by (simp add: known_ids_def split: option.splits)

lemma reach_outgoing_grows:
  "reach_outgoing s tid tree conns (r, q) = Inr (r', q') \<Longrightarrow>
   \<exists>new. q' = q @ new \<and> r' = r \<union> set new \<and> distinct new \<and> set new \<inter> r = {}
         \<and> set new \<subseteq> known_ids s tid"
proof (induction conns arbitrary: r q)
  case Nil
  then show ?case by auto
next
  case (Cons conn rest)
  let ?x = "to_node_id conn"
  show ?case
  proof (cases "?x \<in> r")
    case True
    then show ?thesis using Cons by simp
  next
    case False
    then obtain n where n: "find_node s tid ?x = Some n"
      using Cons.prems by (cases "find_node s tid ?x") (simp_all add: Let_def)
    consider (add) "reach_outgoing s tid tree rest (insert ?x r, q @ [?x]) = Inr (r', q')"
      | (skip) "reach_outgoing s tid tree rest (r, q) = Inr (r', q')"
      using Cons.prems False n by (simp add: Let_def split: if_splits)
    then show ?thesis
    proof cases
      case add
      from Cons.IH[OF add] obtain new where new: "q' = (q @ [?x]) @ new" "r' = insert ?x r \<union> set new"
        "distinct new" "set new \<inter> insert ?x r = {}" "set new \<subseteq> known_ids s tid" by blast
      show ?thesis
        using new False find_node_known[OF n]
        by (intro exI[of _ "?x # new"]) auto
    next
      case skip
      from Cons.IH[OF skip] show ?thesis .
    qed
  qed
qed

termination reach_bfs
proof (relation "measure (\<lambda>(s, tid, tree, reachable, queue, head).
          card (known_ids s tid - reachable) + (length queue - head))", goal_cases)
  case 1
  then show ?case by simp
next
  case (2 s tid tree reachable queue head current_id outgoing x r' q')
  then have "reach_outgoing s tid tree outgoing (reachable, queue) = Inr (r', q')" by simp
  from reach_outgoing_grows[OF this] obtain new where new: "q' = queue @ new"
    "r' = reachable \<union> set new" "distinct new" "set new \<inter> reachable = {}"
    "set new \<subseteq> known_ids s tid" by blast
  have "known_ids s tid - reachable = (known_ids s tid - r') \<union> set new"
    using new by auto
  moreover have "(known_ids s tid - r') \<inter> set new = {}" using new by auto
  ultimately have "card (known_ids s tid - reachable) = card (known_ids s tid - r') + card (set new)"
    by (simp add: card_Un_disjoint)
  then have "card (known_ids s tid - reachable) = card (known_ids s tid - r') + length new"
    using new(3) by (simp add: distinct_card)
  then show ?case using 2(1) new(1) by simp
qed

declare reach_bfs.simps [simp del]

lemma known_find_node: "x \<in> known_ids s tid \<Longrightarrow> \<exists>n. find_node s tid x = Some n"
proof -
  assume x: "x \<in> known_ids s tid"
  then obtain t where t: "find_tree s tid = Some t" "x \<in> node_id ` set (nodes t)"
    by (cases "find_tree s tid") (simp_all add: known_ids_def)
  then have "find (\<lambda>n. node_id n = x) (nodes t) \<noteq> None"
    by (auto simp: find_None_iff)
  then show ?thesis using t(1) by (simp add: find_node_def)
qed

lemma reach_outgoing_returns:
  "\<forall>c\<in>set conns. to_node_id c \<in> known_ids s tid \<Longrightarrow>
   \<exists>r' q'. reach_outgoing s tid tree conns (r, q) = Inr (r', q')"
proof (induction conns arbitrary: r q)
  case Nil
  then show ?case by simp
next
  case (Cons conn rest)
  then obtain n where "find_node s tid (to_node_id conn) = Some n"
    using known_find_node[of "to_node_id conn" s tid] by auto
  then show ?case using Cons by (simp add: Let_def)
qed

lemma reach_bfs_returns:
  "\<forall>c\<in>set (connections tree). to_node_id c \<in> known_ids s tid \<Longrightarrow>
   \<exists>r'. reach_bfs s tid tree r q h = Inr r'"
proof (induction s tid tree r q h rule: reach_bfs.induct)
  case (1 s tid tree reachable queue head)
  show ?case
  proof (cases "head < length queue")
    case False
    then show ?thesis by (simp add: reach_bfs.simps)
  next
    case True
    let ?out = "filter (\<lambda>c. from_node_id c = queue ! head) (connections tree)"
    have "\<forall>c\<in>set ?out. to_node_id c \<in> known_ids s tid" using "1.prems" by simp
    from reach_outgoing_returns[OF this, of tree reachable queue]
    obtain r' q' where o: "reach_outgoing s tid tree ?out (reachable, queue) = Inr (r', q')"
      by blast
    from "1.IH"[OF True refl refl o refl "1.prems"]
    obtain r'' where "reach_bfs s tid tree r' q' (head + 1) = Inr r''" by blast
    then show ?thesis using True o by (simp add: reach_bfs.simps[of s tid tree reachable queue head])
  qed
qed

lemma check_tree_reachability_returns:
  assumes "find_tree s tid = None \<or>
           (\<exists>tree. find_tree s tid = Some tree \<and>
              (\<forall>c\<in>set (connections tree). to_node_id c \<in> node_id ` set (nodes tree)))"
  shows "\<exists>unreachable. check_tree_reachability s tid = Inr unreachable"
proof (cases "find_tree s tid")
  case None
  then show ?thesis by (simp add: check_tree_reachability_def)
next
  case (Some tree)
  then have k: "\<forall>c\<in>set (connections tree). to_node_id c \<in> known_ids s tid"
    using assms by (simp add: known_ids_def)
  obtain r q where f: "fold (\<lambda>node (reachable, queue).
                        if length (filter (\<lambda>c. to_node_id c = node_id node) (connections tree)) = 0
                        then (insert (node_id node) reachable, queue @ [node_id node])
                        else (reachable, queue))
                     (nodes tree) ({}, []) = (r, q)"
    by (cases "fold (\<lambda>node (reachable, queue).
                        if length (filter (\<lambda>c. to_node_id c = node_id node) (connections tree)) = 0
                        then (insert (node_id node) reachable, queue @ [node_id node])
                        else (reachable, queue))
                     (nodes tree) ({}, [])")
  from reach_bfs_returns[OF k, of r q 0] obtain r' where "reach_bfs s tid tree r q 0 = Inr r'"
    by blast
  then show ?thesis using Some f by (simp add: check_tree_reachability_def)
qed

section \<open>Allocation is gated by its caller\<close>

text \<open>
  C1, as the code has it. \<open>allocate_point\<close> never calls \<open>can_allocate_point\<close>: it rejects
  on its own tests (tree or node not found, rank at its maximum, too few points) and does
  not look at the prerequisites. So whenever \<open>can_allocate_point\<close> answers
  \<open>can_allocate = False\<close> in edit mode, or in play mode for a node whose status is not
  \<open>LOCKED\<close>, \<open>allocate_point\<close> returns the very state it was given, provided \<open>spent\<close>
  is not \<^verbatim>\<open>Infinity\<close>: \<open>can_allocate_point\<close> reads the state as it is, \<open>allocate_point\<close>
  reads its JSON clone, in which an infinite \<open>spent\<close> is \<^verbatim>\<open>null\<close> and counts as 0
  (\<open>allocate_point_after_overflow\<close>). The rejection of a \<open>LOCKED\<close> node in play mode is the
  caller's: the click handler asks \<open>can_allocate_point\<close> first and dispatches
  \<open>allocate_point\<close> only on a yes.
\<close>

theorem allocate_point_rejects:
  assumes "\<not> can_allocate (can_allocate_point s tid nid)"
    and "mode s = ''edit'' \<or> get_node_status s tid nid \<noteq> LOCKED"
    and "\<forall>t. find_tree s tid = Some t \<longrightarrow> spent (point_pool t) \<noteq> PosInf"
  shows "allocate_point now s tid nid = s"
proof (cases "get_tree_index s tid")
  case None
  then show ?thesis by (simp add: allocate_point_def)
next
  case (Some ti)
  note ti = get_tree_index_Some[OF Some]
  let ?t = "trees s ! ti"
  show ?thesis
  proof (cases "get_node_index ?t nid")
    case None
    then show ?thesis using Some ti by (simp add: allocate_point_def)
  next
    case (Some ni)
    note ni = get_node_index_Some[OF Some]
    let ?n = "nodes ?t ! ni"
    have fn: "find_node s tid nid = Some ?n" using ti ni by (simp add: find_node_def)
    have rej: "current_rank ?n \<ge> max_rank ?n \<or>
         js_lt (js_sub (Num (total_points (point_pool ?t))) (spent (point_pool ?t)))
               (get_allocation_cost ?n)"
      using assms ti fn
      by (auto simp: can_allocate_point_def get_node_status_def Let_def split: if_splits)
    moreover have "spent (point_pool ?t) \<noteq> PosInf" using assms(3) ti by simp
    ultimately show ?thesis
      using \<open>get_tree_index s tid = Some ti\<close> Some ti
      by (auto simp: allocate_point_def Let_def get_allocation_cost_def dest: js_lt_roundtrip)
  qed
qed

text \<open>Edit mode, node \<open>A\<close> at its maximum rank: refused by both functions.\<close>

theorem allocate_point_rejects_witness:
  "\<not> can_allocate (can_allocate_point (two_node_state ''edit'' 1 0) ''T'' ''A'')
   \<and> mode (two_node_state ''edit'' 1 0) = ''edit''
   \<and> find_tree (two_node_state ''edit'' 1 0) ''T'' = Some (hd (trees (two_node_state ''edit'' 1 0)))
   \<and> spent (point_pool (hd (trees (two_node_state ''edit'' 1 0)))) \<noteq> PosInf
   \<and> allocate_point ''t1'' (two_node_state ''edit'' 1 0) ''T'' ''A'' = two_node_state ''edit'' 1 0"
proof -
  have h1: "\<not> can_allocate (can_allocate_point (two_node_state ''edit'' 1 0) ''T'' ''A'')"
    by code_simp
  have h2: "mode (two_node_state ''edit'' 1 0) = ''edit''"
    by (simp add: two_node_state_def)
  have h3: "find_tree (two_node_state ''edit'' 1 0) ''T''
              = Some (hd (trees (two_node_state ''edit'' 1 0)))"
    by code_simp
  have h4: "spent (point_pool (hd (trees (two_node_state ''edit'' 1 0)))) \<noteq> PosInf"
    by code_simp
  from allocate_point_rejects[OF h1 disjI1[OF h2], of "''t1''"] h1 h2 h3 h4 show ?thesis by simp
qed

text \<open>
  Play mode, \<open>B\<close> locked behind \<open>A\<close> (rank 0 of the required 1): \<open>can_allocate_point\<close>
  refuses, and \<open>allocate_point\<close> called all the same raises \<open>B\<close> to rank 1 and \<open>spent\<close>
  to 1.
\<close>

theorem allocate_point_locked_counterexample:
  "\<not> can_allocate (can_allocate_point (two_node_state ''play'' 0 0) ''T'' ''B'')
   \<and> get_node_status (two_node_state ''play'' 0 0) ''T'' ''B'' = LOCKED
   \<and> allocate_point ''t1'' (two_node_state ''play'' 0 0) ''T'' ''B''
       = (two_node_state ''play'' 0 1)\<lparr>modified_at := ''t1''\<rparr>
   \<and> allocate_point ''t1'' (two_node_state ''play'' 0 0) ''T'' ''B'' \<noteq> two_node_state ''play'' 0 0"
  by code_simp

text \<open>
  An infinite \<open>spent\<close> is within the engine's reach. In \<open>overflow_state\<close> the books are
  right and \<open>spent\<close> is below the budget; allocating \<open>A\<close> passes the budget test, because
  what is left rounds up to the cost, and the new \<open>spent\<close> is \<^verbatim>\<open>Infinity\<close>. On that state
  \<open>can_allocate_point\<close> refuses \<open>C\<close> for lack of points, and \<open>allocate_point\<close>, reading 0
  for the \<open>spent\<close> of its clone, allocates \<open>C\<close> and sets \<open>spent\<close> to 1.
\<close>

lemma overflow_state_books:
  "calculate_spent_points (hd (trees overflow_state))
     = Some (spent (point_pool (hd (trees overflow_state))))"
  by code_simp

lemma allocate_point_overflows:
  "allocate_point ''t1'' overflow_state ''T'' ''A'' = overflowed_state"
  by code_simp

lemma overflowed_state_refused:
  "can_allocate_point overflowed_state ''T'' ''C''
     = \<lparr>can_allocate = False, reason = Some ''Not enough points''\<rparr>"
  by code_simp

lemma allocate_point_after_overflow:
  "spent (point_pool (hd (trees (allocate_point ''t2'' overflowed_state ''T'' ''C'')))) = Num 1"
  by code_simp

section \<open>A refund in play mode leaves a consistent tree\<close>

text \<open>
  C2, as the code has it. \<open>refund_point\<close> returns the state it was given when refunds are
  not allowed, when the tree or the node is not found and when the node holds no rank; the
  cascade runs only after a refund. For a refund that is applied in play mode (refunds
  allowed, tree and node found, the node holding a rank):
  \<^item> the call returns when no rank of the tree is above \<open>2 ^ 53\<close>;
  \<^item> whenever it returns, the cascade is at its fixpoint: in the tree of the returned
    state, every node that holds a rank has its prerequisites satisfied, and each node of
    that tree is as the refund of the one rank left it, or was holding a rank then and is
    now at rank 0 (\<open>cascaded\<close>);
  \<^item> when the ledger is exact (\<open>exact_ledger\<close>: no empty cost list, no negative cost,
    \<open>spent\<close> the number \<open>k\<close>, at most \<open>2 ^ 53\<close>, and not below the recomputed cost by more
    than \<open>2 ^ 53\<close>) and the refunded rank is at most \<open>2 ^ 53\<close>, the returned \<open>spent\<close> is
    \<open>k\<close> less the value of the refunded rank, less the full accumulated cost of every node
    the cascade forced to rank 0.
\<close>

theorem refund_point_cascades:
  assumes "mode s \<noteq> ''edit''" "allow_refunds s" "get_tree_index s tid = Some ti"
    "get_node_index (trees s ! ti) nid = Some ni"
    "0 < current_rank (nodes (trees s ! ti) ! ni)"
  shows "(ranks_bounded (trees s ! ti) \<longrightarrow> refund_point now s tid nid \<noteq> None) \<and>
         (\<forall>s'. refund_point now s tid nid = Some s' \<longrightarrow>
            (\<exists>t'. find_tree s' tid = Some t' \<and>
               (\<forall>n\<in>set (nodes t'). 0 < current_rank n \<longrightarrow>
                  check_prerequisites s' tid (node_id n)) \<and>
               cascaded (direct_refund (clone_tree (trees s ! ti)) ni) t' \<and>
               (\<forall>k. exact_ledger (trees s ! ti) k
                     \<and> current_rank (nodes (trees s ! ti) ! ni) \<le> 2 ^ 53 \<longrightarrow>
                  spent (point_pool t') =
                    Num (k - refund_amount (nodes (trees s ! ti) ! ni)
                           - forced_refunds (nodes (direct_refund (trees s ! ti) ni))
                               (nodes t')))))"
proof (intro conjI impI allI)
  assume "ranks_bounded (trees s ! ti)"
  then have "\<And>i. get_tree_index s tid = Some i \<Longrightarrow> ranks_bounded (trees s ! i)"
    using assms(3) by simp
  from refund_point_returns[of s tid now nid, OF this]
  show "refund_point now s tid nid \<noteq> None" by auto
next
  fix s'
  assume ret: "refund_point now s tid nid = Some s'"
  note ti = get_tree_index_Some[OF assms(3)]
  note ni = get_node_index_Some[OF assms(4)]
  let ?tr = "trees s ! ti"
  let ?cl = "clone_tree ?tr"
  let ?dr = "direct_refund ?cl ni"
  let ?new = "touch_modified now (clone_state s)"
  let ?r = "set_tree ?new ti ?dr"
  have rp: "apply_cascade_refunds ?r tid = Some s'"
    using refund_point_play[OF assms] ret by simp
  have "get_tree_index ?new tid = Some ti" using assms(3) by simp
  then have idx: "get_tree_index ?r tid = Some ti"
    using ti by (intro get_tree_index_set_tree) simp_all
  have tr: "trees ?r ! ti = ?dr" using ti by simp
  from apply_cascade_refunds_props[OF idx rp] obtain t' where t':
      "find_tree s' tid = Some t'"
      "cascaded ?dr t'"
      "\<forall>n\<in>set (nodes t'). 0 < current_rank n \<longrightarrow> check_prerequisites s' tid (node_id n)"
      "\<forall>k. exact_ledger ?dr k \<longrightarrow> exact_ledger t' (k - forced_refunds (nodes ?dr) (nodes t'))"
    unfolding tr by blast
  have sp: "spent (point_pool t') =
                Num (k - refund_amount (nodes ?tr ! ni)
                       - forced_refunds (nodes (direct_refund ?tr ni)) (nodes t'))"
    if "exact_ledger ?tr k \<and> current_rank (nodes ?tr ! ni) \<le> 2 ^ 53" for k
  proof -
    have "spent (point_pool ?tr) = Num k" using that by (simp add: exact_ledger_def)
    then have c: "?cl = ?tr" by (rule clone_tree_Num)
    have "exact_ledger ?dr (k - refund_amount (nodes ?tr ! ni))"
      unfolding c using exact_ledger_direct_refund(1)[of ?tr k ni] that ni assms(5) by simp
    then have "exact_ledger t' (k - refund_amount (nodes ?tr ! ni)
                 - forced_refunds (nodes ?dr) (nodes t'))"
      using t'(4) by blast
    then show ?thesis unfolding c by (simp add: exact_ledger_def)
  qed
  show "\<exists>t'. find_tree s' tid = Some t' \<and>
            (\<forall>n\<in>set (nodes t'). 0 < current_rank n \<longrightarrow> check_prerequisites s' tid (node_id n)) \<and>
            cascaded ?dr t' \<and>
            (\<forall>k. exact_ledger ?tr k \<and> current_rank (nodes ?tr ! ni) \<le> 2 ^ 53 \<longrightarrow>
                  spent (point_pool t') =
                    Num (k - refund_amount (nodes ?tr ! ni)
                           - forced_refunds (nodes (direct_refund ?tr ni)) (nodes t')))"
    using t'(1,2,3) sp by (intro exI[of _ t']) blast
qed

text \<open>
  The spec's example: \<open>A \<rightarrow> B\<close> with both at rank 1 and \<open>spent = 2\<close>. Refunding \<open>A\<close> returns
  the state with both at rank 0 and \<open>spent = 0\<close>.
\<close>

theorem refund_point_cascades_witness:
  "mode (two_node_state ''play'' 1 1) \<noteq> ''edit''
   \<and> allow_refunds (two_node_state ''play'' 1 1)
   \<and> get_tree_index (two_node_state ''play'' 1 1) ''T'' = Some 0
   \<and> get_node_index (trees (two_node_state ''play'' 1 1) ! 0) ''A'' = Some 0
   \<and> 0 < current_rank (nodes (trees (two_node_state ''play'' 1 1) ! 0) ! 0)
   \<and> ranks_bounded (trees (two_node_state ''play'' 1 1) ! 0)
   \<and> exact_ledger (trees (two_node_state ''play'' 1 1) ! 0) 2
   \<and> current_rank (nodes (trees (two_node_state ''play'' 1 1) ! 0) ! 0) \<le> 2 ^ 53
   \<and> refund_point ''t1'' (two_node_state ''play'' 1 1) ''T'' ''A''
        = Some ((two_node_state ''play'' 0 0)\<lparr>modified_at := ''t1''\<rparr>)
   \<and> (\<exists>t'. find_tree ((two_node_state ''play'' 0 0)\<lparr>modified_at := ''t1''\<rparr>) ''T'' = Some t'
          \<and> (\<forall>n\<in>set (nodes t'). 0 < current_rank n \<longrightarrow>
                check_prerequisites ((two_node_state ''play'' 0 0)\<lparr>modified_at := ''t1''\<rparr>) ''T''
                  (node_id n))
          \<and> spent (point_pool t') =
               Num (2 - refund_amount (nodes (trees (two_node_state ''play'' 1 1) ! 0) ! 0)
                      - forced_refunds
                          (nodes (direct_refund (trees (two_node_state ''play'' 1 1) ! 0) 0))
                          (nodes t')))"
proof -
  let ?s = "two_node_state ''play'' 1 1"
  let ?s' = "(two_node_state ''play'' 0 0)\<lparr>modified_at := ''t1''\<rparr>"
  have h1: "mode ?s \<noteq> ''edit''" by code_simp
  have h2: "allow_refunds ?s" by code_simp
  have h3: "get_tree_index ?s ''T'' = Some 0" by code_simp
  have h4: "get_node_index (trees ?s ! 0) ''A'' = Some 0" by code_simp
  have h5: "0 < current_rank (nodes (trees ?s ! 0) ! 0)" by code_simp
  have h6: "ranks_bounded (trees ?s ! 0)" by code_simp
  have h7: "exact_ledger (trees ?s ! 0) 2" by code_simp
  have h8: "current_rank (nodes (trees ?s ! 0) ! 0) \<le> 2 ^ 53" by code_simp
  have r: "refund_point ''t1'' ?s ''T'' ''A'' = Some ?s'" by code_simp
  from refund_point_cascades[OF h1 h2 h3 h4 h5, of "''t1''"] r h7 h8
  have "\<exists>t'. find_tree ?s' ''T'' = Some t'
          \<and> (\<forall>n\<in>set (nodes t'). 0 < current_rank n \<longrightarrow>
                check_prerequisites ?s' ''T'' (node_id n))
          \<and> spent (point_pool t') =
               Num (2 - refund_amount (nodes (trees ?s ! 0) ! 0)
                      - forced_refunds (nodes (direct_refund (trees ?s ! 0) 0)) (nodes t'))"
    by blast
  with h1 h2 h3 h4 h5 h6 h7 h8 r show ?thesis by blast
qed

text \<open>
  The claim as it is worded, for every refund in play mode, fails on a refund that is
  rejected. \<open>A\<close> at rank 0, \<open>B\<close> at rank 1 behind it (an allocation in edit mode, or
  \<open>allocate_point\<close> called directly, leaves this): refunding \<open>A\<close>, which holds no rank,
  returns the state as it is, and \<open>B\<close> keeps a rank with its prerequisite unsatisfied.
\<close>

theorem refund_point_rejected_counterexample:
  "mode (two_node_state ''play'' 0 1) \<noteq> ''edit''
   \<and> refund_point ''t1'' (two_node_state ''play'' 0 1) ''T'' ''A''
        = Some (two_node_state ''play'' 0 1)
   \<and> find_node (two_node_state ''play'' 0 1) ''T'' ''B''
        = Some ((create_node ''B'')\<lparr>current_rank := 1\<rparr>)
   \<and> 0 < current_rank ((create_node ''B'')\<lparr>current_rank := 1\<rparr>)
   \<and> \<not> check_prerequisites (two_node_state ''play'' 0 1) ''T'' ''B''"
  by code_simp

text \<open>
  Beyond \<open>2 ^ 53\<close> the subtractions round. With \<open>spent\<close> at \<open>2 ^ 53 + 2\<close> and both costs 1,
  refunding \<open>A\<close> gives \<open>2 ^ 53 + 1\<close>, which is no number and becomes \<open>2 ^ 53\<close>; the cascade
  takes the cost of \<open>B\<close> from that. Two costs of 1 are given back and \<open>spent\<close> has lost 3.
\<close>

lemma refund_point_rounds:
  "refund_point ''t1'' heavy_spent_state ''T'' ''A''
     = Some (heavy_spent_state\<lparr>modified_at := ''t1'',
          trees := [(hd (trees heavy_spent_state))\<lparr>
            nodes := [create_node ''A'', create_node ''B''],
            point_pool := \<lparr>total_points = 2 ^ 54, spent = Num (2 ^ 53 - 1)\<rparr>\<rparr>]\<rparr>)"
  by code_simp

section \<open>Conservation of the spent points\<close>







text \<open>
  Outside the data model the books do not hold either: with an empty cost list the cost
  read is \<^verbatim>\<open>undefined\<close>, the budget test \<^verbatim>\<open>available < cost\<close> is false, and the
  allocation turns \<open>spent\<close> into \<^verbatim>\<open>NaN\<close>, which \<open>validate_tree\<close> reports.
\<close>

lemma empty_cost_list_leaves_the_numbers:
  "calculate_spent_points (hd (trees free_node_state))
     = Some (spent (point_pool (hd (trees free_node_state))))
   \<and> spent (point_pool (hd (trees (allocate_point ''t1'' free_node_state ''T'' ''A'')))) = NaN
   \<and> validate_tree (allocate_point ''t1'' free_node_state ''T'' ''A'') ''T''
       = Some (Inr \<lparr>is_valid = True, errors = [],
                    warnings = [WARN_POINT_POOL_MISMATCH NaN NaN]\<rparr>)"
  by code_simp

section \<open>SUM logic and unknown logic\<close>

text \<open>
  C4, as the code has it. In a tree that is found, a node with no incoming connection is
  satisfied. For a node with SUM logic and at least one incoming connection, the code adds
  the rank of the source of each incoming connection (a missing source adds nothing; a node
  that is the source of two connections is counted twice) and compares the total with the
  effective threshold: \<^verbatim>\<open>prerequisite_threshold || 1\<close>, which is the threshold itself
  unless that is 0, and then 1. Each addition is rounded; when the magnitudes of the ranks
  added do not exceed \<open>2 ^ 53\<close> together, the total is the sum, and the node is satisfied
  exactly when the sum reaches the effective threshold. The answer is the same whatever the
  connections' \<^verbatim>\<open>required_rank\<close> are.
\<close>

theorem sum_prerequisites:
  assumes "find_tree s tid = Some tree"
  shows "(incoming_connections tree nid = [] \<longrightarrow> check_prerequisites s tid nid) \<and>
         (incoming_connections tree nid \<noteq> [] \<and> find_node s tid nid = Some node
            \<and> prerequisite_logic node = ''SUM'' \<longrightarrow>
          (source_rank_magnitude s tid (incoming_connections tree nid) \<le> 2 ^ 53 \<longrightarrow>
             (check_prerequisites s tid nid \<longleftrightarrow>
                (if prerequisite_threshold node = 0 then 1 else prerequisite_threshold node)
                  \<le> source_rank_sum s tid (incoming_connections tree nid))) \<and>
          check_prerequisites (set_required_ranks f s) tid nid = check_prerequisites s tid nid)"
proof (intro conjI impI; (elim conjE)?)
  assume "incoming_connections tree nid = []"
  then show "check_prerequisites s tid nid" using assms by (rule check_prerequisites_root[rotated])
next
  assume a: "incoming_connections tree nid \<noteq> []" "find_node s tid nid = Some node"
    "prerequisite_logic node = ''SUM''"
    and m: "source_rank_magnitude s tid (incoming_connections tree nid) \<le> 2 ^ 53"
  show "check_prerequisites s tid nid \<longleftrightarrow>
             (if prerequisite_threshold node = 0 then 1 else prerequisite_threshold node)
               \<le> source_rank_sum s tid (incoming_connections tree nid)"
    using check_prerequisites_sum[OF assms a m] .
next
  assume a: "incoming_connections tree nid \<noteq> []" "find_node s tid nid = Some node"
    "prerequisite_logic node = ''SUM''"
  have t': "find_tree (set_required_ranks f s) tid = Some (rerank_tree f tree)"
    using assms by (simp add: find_tree_rerank)
  have i': "incoming_connections (rerank_tree f tree) nid \<noteq> []"
    using a(1) by (simp add: incoming_rerank)
  have n': "find_node (set_required_ranks f s) tid nid = Some node"
    using a(2) by (simp add: find_node_rerank)
  show "check_prerequisites (set_required_ranks f s) tid nid = check_prerequisites s tid nid"
    unfolding check_prerequisites_total[OF assms a] check_prerequisites_total[OF t' i' n' a(3)]
    by (simp add: incoming_rerank source_rank_total_rerank)
qed

text \<open>
  The spec's example: threshold 3, \<open>D\<close> at rank 2 and \<open>E\<close> at rank 1; and the root \<open>D\<close>.
\<close>

theorem sum_prerequisites_witness:
  "find_tree (three_node_state ''SUM'' 3 2 1) ''T'' = Some (hd (trees (three_node_state ''SUM'' 3 2 1)))
   \<and> incoming_connections (hd (trees (three_node_state ''SUM'' 3 2 1))) ''D'' = []
   \<and> check_prerequisites (three_node_state ''SUM'' 3 2 1) ''T'' ''D''
   \<and> incoming_connections (hd (trees (three_node_state ''SUM'' 3 2 1))) ''C'' \<noteq> []
   \<and> find_node (three_node_state ''SUM'' 3 2 1) ''T'' ''C''
        = Some (hd (nodes (hd (trees (three_node_state ''SUM'' 3 2 1)))))
   \<and> prerequisite_logic (hd (nodes (hd (trees (three_node_state ''SUM'' 3 2 1))))) = ''SUM''
   \<and> source_rank_magnitude (three_node_state ''SUM'' 3 2 1) ''T''
        (incoming_connections (hd (trees (three_node_state ''SUM'' 3 2 1))) ''C'') \<le> 2 ^ 53
   \<and> check_prerequisites (three_node_state ''SUM'' 3 2 1) ''T'' ''C''
   \<and> check_prerequisites (set_required_ranks (\<lambda>c. 9) (three_node_state ''SUM'' 3 2 1)) ''T'' ''C''"
proof -
  let ?s = "three_node_state ''SUM'' 3 2 1"
  let ?t = "hd (trees ?s)"
  let ?n = "hd (nodes ?t)"
  have h1: "find_tree ?s ''T'' = Some ?t" by code_simp
  have h2: "incoming_connections ?t ''D'' = []" by code_simp
  have h3: "incoming_connections ?t ''C'' \<noteq> []" by code_simp
  have h4: "find_node ?s ''T'' ''C'' = Some ?n" by code_simp
  have h5: "prerequisite_logic ?n = ''SUM''" by code_simp
  have h6: "(if prerequisite_threshold ?n = 0 then 1 else prerequisite_threshold ?n)
              \<le> source_rank_sum ?s ''T'' (incoming_connections ?t ''C'')" by code_simp
  have h7: "source_rank_magnitude ?s ''T'' (incoming_connections ?t ''C'') \<le> 2 ^ 53"
    by code_simp
  from sum_prerequisites[OF h1, of "''D''"] h2
  have d: "check_prerequisites ?s ''T'' ''D''" by simp
  from sum_prerequisites[OF h1, of "''C''" ?n "\<lambda>c. 9"] h3 h4 h5 h6 h7
  have c: "check_prerequisites ?s ''T'' ''C''"
    "check_prerequisites (set_required_ranks (\<lambda>c. 9) ?s) ''T'' ''C''" by blast+
  from h1 h2 h3 h4 h5 h7 c d show ?thesis by blast
qed

text \<open>
  Threshold 0, both sources at rank 0: the sum 0 reaches the threshold 0, and the node is
  not satisfied, because the code compares with 1.
\<close>

theorem sum_threshold_zero_counterexample:
  "find_node (three_node_state ''SUM'' 0 0 0) ''T'' ''C''
        = Some (hd (nodes (hd (trees (three_node_state ''SUM'' 0 0 0)))))
   \<and> prerequisite_logic (hd (nodes (hd (trees (three_node_state ''SUM'' 0 0 0))))) = ''SUM''
   \<and> incoming_connections (hd (trees (three_node_state ''SUM'' 0 0 0))) ''C'' \<noteq> []
   \<and> prerequisite_threshold (hd (nodes (hd (trees (three_node_state ''SUM'' 0 0 0)))))
        \<le> source_rank_sum (three_node_state ''SUM'' 0 0 0) ''T''
             (incoming_connections (hd (trees (three_node_state ''SUM'' 0 0 0))) ''C'')
   \<and> \<not> check_prerequisites (three_node_state ''SUM'' 0 0 0) ''T'' ''C''"
  by code_simp

text \<open>
  Beyond \<open>2 ^ 53\<close> the total is not the sum. With sources at the ranks \<open>2 ^ 53\<close>, 1 and 1
  the sum is \<open>2 ^ 53 + 2\<close> and reaches the threshold \<open>2 ^ 53 + 2\<close>; the code adds 1 to
  \<open>2 ^ 53\<close> twice, each time to no effect, and finds the node not satisfied.
\<close>

lemma sum_rounds:
  "source_rank_sum big_rank_state ''T'' (incoming_connections (hd (trees big_rank_state)) ''C'')
     = 2 ^ 53 + 2
   \<and> source_rank_total big_rank_state ''T'' (incoming_connections (hd (trees big_rank_state)) ''C'')
     = Num (2 ^ 53)
   \<and> \<not> check_prerequisites big_rank_state ''T'' ''C''"
  by code_simp

text \<open>
  C5, on the code. A node whose logic is the string \<open>XOR\<close>, with two incoming connections
  none of which is satisfied: \<open>check_prerequisites\<close> falls through its three cases and
  returns true, and \<open>get_node_status\<close> reports \<open>UNLOCKABLE\<close>. The same node with the logic
  \<open>AND\<close> is not satisfied. (The same holds of every logic outside the three that is not
  empty: \<open>check_prerequisites_unknown_logic\<close>.)
\<close>

theorem malformed_logic_is_satisfied:
  "check_prerequisites (three_node_state ''XOR'' 1 0 0) ''T'' ''C''
   \<and> get_node_status (three_node_state ''XOR'' 1 0 0) ''T'' ''C'' = UNLOCKABLE
   \<and> \<not> is_connection_satisfied (three_node_state ''XOR'' 1 0 0) ''T'' (create_connection ''c1'' ''D'' ''C'')
   \<and> \<not> is_connection_satisfied (three_node_state ''XOR'' 1 0 0) ''T'' (create_connection ''c2'' ''E'' ''C'')
   \<and> \<not> check_prerequisites (three_node_state ''AND'' 1 0 0) ''T'' ''C''"
  by code_simp

section \<open>Reachability on a dangling connection\<close>

text \<open>
  C6, on the code. In the tree with the single node \<open>A\<close> and a connection from \<open>A\<close> to
  \<open>Z\<close>, which is no node of the tree: \<open>A\<close> is a root, the search takes its outgoing
  connection, \<^verbatim>\<open>find_node\<close> returns \<^verbatim>\<open>null\<close> for \<open>Z\<close>, and the read of
  \<^verbatim>\<open>target_node.prerequisite_logic\<close> throws. \<open>check_tree_reachability\<close> returns no
  list. (When every connection's target is a node of the tree, it does return one:
  \<open>check_tree_reachability_returns\<close>.)
\<close>

theorem reachability_raises_on_dangling_target:
  "find_tree dangling_state ''T'' = Some (hd (trees dangling_state))
   \<and> map to_node_id (connections (hd (trees dangling_state))) = [''Z'']
   \<and> find_node dangling_state ''T'' ''Z'' = None
   \<and> check_tree_reachability dangling_state ''T'' = Inl TypeError"
  by code_simp

section \<open>The cascade terminates and is idempotent\<close>

lemma cascade_fold_stable':
  "\<forall>i\<in>set idxs. stable_at tid ti st i \<Longrightarrow>
   fold (\<lambda>i acc. Option.bind acc (cascade_node tid ti i)) idxs (Some (st, ch)) = Some (st, ch)"
  by (induction idxs) (auto simp: cascade_node_result node_cascaded_skip)

lemma cascade_pass_stable':
  "\<forall>i<length (nodes (trees s ! ti)). stable_at tid ti s i \<Longrightarrow>
   cascade_pass tid ti s = Some (s, False)"
  unfolding cascade_pass_def by (rule cascade_fold_stable') simp

text \<open>
  C7, as the code has it. The loop over the ranks of a node that is reset counts with a
  number, and a rank above \<open>2 ^ 53\<close> is out of its reach: the pass that resets such a node
  does not end. For each pass over a tree of the state that ends: either the flag is set,
  the total of the ranks held in the tree is strictly smaller afterwards and the loop goes
  on from the new state; or the flag is not set, the state is the one the pass started from,
  and the loop returns it. When no rank of the tree is above \<open>2 ^ 53\<close>, the pass ends and so
  does the loop: \<open>cascade_while\<close> is a function whose termination proof is the decrease of
  \<open>total_allocated_rank\<close>, a natural number, on every pass that sets the flag.
  (\<open>total_allocated_rank\<close> is the sum of the ranks when none is negative:
  \<open>total_allocated_rank_sum\<close>.)
\<close>

theorem cascade_pass_decreases:
  assumes "ti < length (trees s)"
  shows "(\<forall>s' changed. cascade_pass tid ti s = Some (s', changed) \<longrightarrow>
            (if changed
             then total_allocated_rank (trees s' ! ti) < total_allocated_rank (trees s ! ti)
                  \<and> cascade_while tid ti s = cascade_while tid ti s'
             else s' = s \<and> cascade_while tid ti s = Some s)) \<and>
         (ranks_bounded (trees s ! ti) \<longrightarrow>
            cascade_pass tid ti s \<noteq> None \<and> cascade_while tid ti s \<noteq> None)"
proof (intro conjI allI impI)
  fix s' changed
  assume pass: "cascade_pass tid ti s = Some (s', changed)"
  then have "pass_cascaded tid ti s = (s', changed)"
    using cascade_pass_result[of tid ti s "(s', changed)"] by simp
  note pp = pass_cascaded_props[OF assms this]
  show "if changed
        then total_allocated_rank (trees s' ! ti) < total_allocated_rank (trees s ! ti)
             \<and> cascade_while tid ti s = cascade_while tid ti s'
        else s' = s \<and> cascade_while tid ti s = Some s"
    using assms pass pp(2,3) by (simp add: cascade_while.simps[of tid ti s])
next
  assume b: "ranks_bounded (trees s ! ti)"
  show "cascade_pass tid ti s \<noteq> None" using cascade_pass_returns[OF assms b] by simp
  show "cascade_while tid ti s \<noteq> None" using cascade_while_returns[OF assms b] by simp
qed

text \<open>\<open>A\<close> at rank 0 and \<open>B\<close> still at rank 1: the pass resets \<open>B\<close> and sets the flag.\<close>

theorem cascade_pass_decreases_witness:
  "(0::nat) < length (trees (two_node_state ''play'' 0 1))
   \<and> ranks_bounded (trees (two_node_state ''play'' 0 1) ! 0)
   \<and> cascade_pass ''T'' 0 (two_node_state ''play'' 0 1) = Some (two_node_state ''play'' 0 0, True)
   \<and> total_allocated_rank (trees (two_node_state ''play'' 0 0) ! 0)
       < total_allocated_rank (trees (two_node_state ''play'' 0 1) ! 0)
   \<and> cascade_while ''T'' 0 (two_node_state ''play'' 0 1)
       = cascade_while ''T'' 0 (two_node_state ''play'' 0 0)
   \<and> cascade_while ''T'' 0 (two_node_state ''play'' 0 1) \<noteq> None"
proof -
  have h: "(0::nat) < length (trees (two_node_state ''play'' 0 1))"
    by (simp add: two_node_state_def)
  have b: "ranks_bounded (trees (two_node_state ''play'' 0 1) ! 0)" by code_simp
  have c: "cascade_pass ''T'' 0 (two_node_state ''play'' 0 1)
             = Some (two_node_state ''play'' 0 0, True)"
    by code_simp
  note t = cascade_pass_decreases[OF h, of "''T''"]
  from t c have d: "total_allocated_rank (trees (two_node_state ''play'' 0 0) ! 0)
       < total_allocated_rank (trees (two_node_state ''play'' 0 1) ! 0)
     \<and> cascade_while ''T'' 0 (two_node_state ''play'' 0 1)
       = cascade_while ''T'' 0 (two_node_state ''play'' 0 0)"
    by fastforce
  from t b have "cascade_while ''T'' 0 (two_node_state ''play'' 0 1) \<noteq> None" by blast
  with h b c d show ?thesis by blast
qed

text \<open>
  The claim as it is worded, for every finite tree, fails on a rank above \<open>2 ^ 53\<close>. In
  \<open>endless_state\<close> the node \<open>B\<close> holds \<open>2 ^ 53 + 2\<close> ranks behind \<open>A\<close> at rank 0. The pass
  finds \<open>B\<close> unsatisfied and starts giving its ranks back one by one; at \<open>2 ^ 53\<close> the
  counter stops advancing, and neither the pass nor the cascade returns.
\<close>

theorem cascade_endless_counterexample:
  "\<not> check_prerequisites endless_state ''T'' ''B''
   \<and> cascade_pass ''T'' 0 endless_state = None
   \<and> cascade_while ''T'' 0 endless_state = None
   \<and> apply_cascade_refunds endless_state ''T'' = None"
proof -
  have l: "(0::nat) < length (trees endless_state)" by code_simp
  have n: "[0..<length (nodes (trees endless_state ! 0))] = [0, 1]" by code_simp
  have a: "stable_at ''T'' 0 endless_state 0" by code_simp
  have b: "\<not> stable_at ''T'' 0 endless_state 1" by code_simp
  have c: "\<not> current_rank (nodes (trees endless_state ! 0) ! 1) \<le> 2 ^ 53" by code_simp
  have i: "get_tree_index endless_state ''T'' = Some 0" by code_simp
  have p: "\<not> check_prerequisites endless_state ''T'' ''B''" by code_simp
  have pass: "cascade_pass ''T'' 0 endless_state = None"
    unfolding cascade_pass_def n using a b c
    by (simp add: cascade_node_result node_cascaded_skip)
  then have w: "cascade_while ''T'' 0 endless_state = None"
    using l by (simp add: cascade_while.simps[of "''T''" 0 endless_state])
  then have "apply_cascade_refunds endless_state ''T'' = None"
    using i by (simp add: apply_cascade_refunds_def)
  with p pass w show ?thesis by simp
qed

text \<open>
  C8. Running the cascade on its own result changes nothing: the first run ends on a pass
  that found every ranked node satisfied, and the second run's first pass finds the same.
  A run that does not return has no result to run on; running twice is then running once.
\<close>

theorem apply_cascade_refunds_idempotent:
  "Option.bind (apply_cascade_refunds s tid) (\<lambda>s'. apply_cascade_refunds s' tid)
     = apply_cascade_refunds s tid"
proof (cases "apply_cascade_refunds s tid")
  case None
  then show ?thesis by simp
next
  case (Some s1)
  show ?thesis
  proof (cases "get_tree_index s tid")
    case None
    then show ?thesis by (simp add: apply_cascade_refunds_def)
  next
    case ti: (Some ti)
    note lt = get_tree_index_Some[OF ti]
    from all_cascaded_props[of ti s tid] lt
    obtain t' where t': "all_cascaded tid ti s = set_tree s ti t'" "cascaded (trees s ! ti) t'"
        "\<forall>i<length (nodes t'). stable_at tid ti (set_tree s ti t') i"
      by blast
    have s1: "s1 = set_tree s ti t'"
      using apply_cascade_refunds_result[OF Some] ti t'(1) by simp
    have idx: "get_tree_index s1 tid = Some ti"
      unfolding s1 using get_tree_index_set_tree[OF ti] cascaded_tree_id[OF t'(2)] lt by simp
    have len: "ti < length (trees s1)" unfolding s1 using lt by simp
    have tr: "trees s1 ! ti = t'" unfolding s1 using lt by simp
    have "cascade_pass tid ti s1 = Some (s1, False)"
      by (rule cascade_pass_stable') (use t'(3) tr s1 in simp)
    then have "cascade_while tid ti s1 = Some s1"
      using len by (simp add: cascade_while.simps[of tid ti s1])
    then have "apply_cascade_refunds s1 tid = Some s1"
      using idx by (simp add: apply_cascade_refunds_def)
    then show ?thesis using Some by simp
  qed
qed

section \<open>Cycle detection\<close>

text \<open>
  C9, on the code. The adjacency object is a plain object, and a connection end that is no
  node of the tree but the name of a member every object inherits, such as \<open>toString\<close>,
  is found in it. In \<open>inherited_source_state\<close> the only connection leads from \<open>toString\<close>
  to the node \<open>A\<close>: the connections have no cycle, the test
  \<^verbatim>\<open>if (adjacency[conn.from_node_id])\<close> finds the inherited function, and the call of its
  \<^verbatim>\<open>push\<close> throws. \<open>detect_cycle\<close> returns neither a cycle nor \<^verbatim>\<open>null\<close>, and
  \<open>validate_tree\<close>, which has found the connection's source missing, throws with it.
  The dangling connection \<open>A \<rightarrow> Z\<close> of \<open>dangling_state\<close> is skipped as intended.
\<close>

theorem detect_cycle_raises_on_inherited_source:
  "acyclic (edges (hd (trees inherited_source_state)))
   \<and> build_adjacency (hd (trees inherited_source_state)) = Inl TypeError
   \<and> detect_cycle (hd (trees inherited_source_state)) = Inl TypeError
   \<and> validate_tree inherited_source_state ''T'' = Some (Inl TypeError)
   \<and> detect_cycle (hd (trees dangling_state)) = Inr None"
proof -
  have "edges (hd (trees inherited_source_state)) = {(''toString'', ''A'')}"
    by (simp add: edges_def inherited_source_state_def create_connection_def)
  then have a: "acyclic (edges (hd (trees inherited_source_state)))"
    by (simp add: acyclic_insert wf_acyclic)
  have b: "build_adjacency (hd (trees inherited_source_state)) = Inl TypeError" by code_simp
  have c: "detect_cycle (hd (trees inherited_source_state)) = Inl TypeError" by code_simp
  have d: "validate_tree inherited_source_state ''T'' = Some (Inl TypeError)" by code_simp
  have e: "detect_cycle (hd (trees dangling_state)) = Inr None" by code_simp
  from a b c d e show ?thesis by simp
qed

text \<open>
  The same happens at the other end: a connection from \<open>A\<close> to \<open>toString\<close> is stored, the
  search goes on to the neighbour \<open>toString\<close>, and the loop over
  \<^verbatim>\<open>adjacency[node_id] || []\<close> throws on the inherited function.
\<close>

lemma detect_cycle_raises_on_inherited_target:
  "build_adjacency (hd (trees inherited_target_state)) = Inr [(''A'', [''toString''])]
   \<and> detect_cycle (hd (trees inherited_target_state)) = Inl TypeError"
  by code_simp

text \<open>
  Away from those names the search is as the claim says. On a triangle of three distinct
  ids it returns them from the first one met on (\<open>detect_triangle\<close>), by the step
  \<open>dfs_neighbors_on_stack\<close>, and \<open>validate_tree\<close> reports the list
  (\<open>validate_tree_cycle\<close>); a list it returns is a cycle of the connections
  (\<open>detect_cycle_sound\<close>); and with \<open>plain_ids\<close> it returns \<^verbatim>\<open>null\<close> on every acyclic
  connection graph (\<open>detect_cycle_acyclic\<close>). On the spec's triangle: from \<open>A\<close> the search
  walks to \<open>B\<close> and \<open>C\<close>, meets \<open>A\<close> on the recursion stack and returns the path from
  \<open>A\<close> on.
\<close>

lemma detect_cycle_triangle_example:
  "detect_cycle (hd (trees triangle_state)) = Inr (Some [''A'', ''B'', ''C''])
   \<and> validate_tree triangle_state ''T''
       = Some (Inr \<lparr>is_valid = False, errors = [ERR_CYCLIC_DEPENDENCY [''A'', ''B'', ''C'']],
                    warnings = []\<rparr>)"
  by code_simp

text \<open>The two connections \<open>A \<rightarrow> B\<close> and \<open>A \<rightarrow> Z\<close> have plain ends and no cycle.\<close>

lemma detect_cycle_plain_examples:
  "plain_ids (hd (trees (two_node_state ''edit'' 0 0)))
   \<and> detect_cycle (hd (trees (two_node_state ''edit'' 0 0))) = Inr None
   \<and> plain_ids (hd (trees dangling_state))
   \<and> \<not> plain_ids (hd (trees inherited_source_state))
   \<and> \<not> plain_ids (hd (trees inherited_target_state))"
proof -
  have a: "plain_ids (hd (trees (two_node_state ''edit'' 0 0)))" by code_simp
  have "edges (hd (trees (two_node_state ''edit'' 0 0))) = {(''A'', ''B'')}"
    by (simp add: edges_def two_node_state_def create_connection_def)
  then have "acyclic (edges (hd (trees (two_node_state ''edit'' 0 0))))"
    by (simp add: acyclic_insert wf_acyclic)
  then have b: "detect_cycle (hd (trees (two_node_state ''edit'' 0 0))) = Inr None"
    by (rule detect_cycle_acyclic[OF a])
  have c: "plain_ids (hd (trees dangling_state))" by code_simp
  have d: "\<not> plain_ids (hd (trees inherited_source_state))" by code_simp
  have e: "\<not> plain_ids (hd (trees inherited_target_state))" by code_simp
  from a b c d e show ?thesis by simp
qed

section \<open>Connections stay unique and attached\<close>

text \<open>
  C10. In a tree that is found, \<open>add_connection\<close> returns the very state it was given when
  a connection with the same ordered pair of ends exists already, or when one of the two
  ends is not the id of a node of the tree. So it keeps, in every tree of the state, both
  invariants of \<open>well_connected\<close>: at most one connection per ordered pair of node ids, and
  no connection with an end that is not a node.
\<close>

theorem add_connection_guards:
  "(find_tree s tid = Some tree \<and>
      (list_ex (\<lambda>c. from_node_id c = opt_from_node_id options \<and>
                     to_node_id c = opt_to_node_id options) (connections tree)
       \<or> opt_from_node_id options \<notin> node_id ` set (nodes tree)
       \<or> opt_to_node_id options \<notin> node_id ` set (nodes tree))
     \<longrightarrow> add_connection new_id now s tid options = s)
   \<and> (list_all well_connected (trees s)
     \<longrightarrow> list_all well_connected (trees (add_connection new_id now s tid options)))"
  using add_connection_rejects[of s tid tree options new_id now]
    add_connection_keeps[of s new_id now tid options]
  by blast

text \<open>
  In the tree with \<open>A \<rightarrow> B\<close>: a second \<open>A \<rightarrow> B\<close> and an \<open>A \<rightarrow> Z\<close> to no node are refused;
  \<open>B \<rightarrow> A\<close> is added and the tree stays well connected.
\<close>

theorem add_connection_guards_witness:
  "find_tree (two_node_state ''edit'' 0 0) ''T'' = Some (hd (trees (two_node_state ''edit'' 0 0)))
   \<and> list_ex (\<lambda>c. from_node_id c = ''A'' \<and> to_node_id c = ''B'')
        (connections (hd (trees (two_node_state ''edit'' 0 0))))
   \<and> add_connection ''c2'' ''t1'' (two_node_state ''edit'' 0 0) ''T''
        \<lparr>opt_from_node_id = ''A'', opt_to_node_id = ''B'', opt_logic = None,
         opt_required_rank = None\<rparr> = two_node_state ''edit'' 0 0
   \<and> ''Z'' \<notin> node_id ` set (nodes (hd (trees (two_node_state ''edit'' 0 0))))
   \<and> add_connection ''c2'' ''t1'' (two_node_state ''edit'' 0 0) ''T''
        \<lparr>opt_from_node_id = ''A'', opt_to_node_id = ''Z'', opt_logic = None,
         opt_required_rank = None\<rparr> = two_node_state ''edit'' 0 0
   \<and> list_all well_connected (trees (two_node_state ''edit'' 0 0))
   \<and> list_all well_connected (trees (add_connection ''c2'' ''t1'' (two_node_state ''edit'' 0 0) ''T''
        \<lparr>opt_from_node_id = ''B'', opt_to_node_id = ''A'', opt_logic = None,
         opt_required_rank = Some 2\<rparr>))
   \<and> length (connections (hd (trees (add_connection ''c2'' ''t1'' (two_node_state ''edit'' 0 0) ''T''
        \<lparr>opt_from_node_id = ''B'', opt_to_node_id = ''A'', opt_logic = None,
         opt_required_rank = Some 2\<rparr>)))) = 2"
proof -
  let ?s = "two_node_state ''edit'' 0 0"
  let ?ab = "\<lparr>opt_from_node_id = ''A'', opt_to_node_id = ''B'', opt_logic = None,
         opt_required_rank = None\<rparr>"
  let ?az = "\<lparr>opt_from_node_id = ''A'', opt_to_node_id = ''Z'', opt_logic = None,
         opt_required_rank = None\<rparr>"
  let ?ba = "\<lparr>opt_from_node_id = ''B'', opt_to_node_id = ''A'', opt_logic = None,
         opt_required_rank = Some 2\<rparr>"
  have h1: "find_tree ?s ''T'' = Some (hd (trees ?s))" by code_simp
  have h2: "list_ex (\<lambda>c. from_node_id c = ''A'' \<and> to_node_id c = ''B'')
        (connections (hd (trees ?s)))" by code_simp
  have h3: "''Z'' \<notin> node_id ` set (nodes (hd (trees ?s)))" by code_simp
  have h4: "list_all well_connected (trees ?s)" by code_simp
  have n: "length (connections (hd (trees (add_connection ''c2'' ''t1'' ?s ''T'' ?ba)))) = 2"
    by code_simp
  from add_connection_guards[of ?s "''T''" "hd (trees ?s)" ?ab "''c2''" "''t1''"] h1 h2
  have r1: "add_connection ''c2'' ''t1'' ?s ''T'' ?ab = ?s" by simp
  from add_connection_guards[of ?s "''T''" "hd (trees ?s)" ?az "''c2''" "''t1''"] h1 h3
  have r2: "add_connection ''c2'' ''t1'' ?s ''T'' ?az = ?s" by simp
  from add_connection_guards[of ?s "''T''" "hd (trees ?s)" ?ba "''c2''" "''t1''"] h4
  have r3: "list_all well_connected (trees (add_connection ''c2'' ''t1'' ?s ''T'' ?ba))" by simp
  from h1 h2 h3 h4 n r1 r2 r3 show ?thesis by blast
qed

end
